theory Spec2Isabelle
  imports Main "HOL-Library.Sublist"
begin

section \<open>The document\<close>

text \<open>
  The script \<^verbatim>\<open>assets/js/highlight-init.js\<close> works on the browser's document through
  references to element objects. A reference is modelled by the address of the node:
  the list of child indices that leads to it from the root element of the parsed page.

  The script never inserts or moves a node. Its only structural mutation is the
  \<^verbatim>\<open>textContent\<close> setter, which removes every child of an element and puts one new
  text node in their place. A removed child is still an object (the static node list
  of \<^verbatim>\<open>querySelectorAll\<close> keeps referring to it), so the model keeps it at its address:
  an element \<open>Element name class replaced kept\<close> has its local name (lower case, as
  the HTML parser gives it), the raw string of its \<^verbatim>\<open>class\<close> attribute, a field that is
  \<open>Some ms\<close> once its children have been replaced by the markup \<open>ms\<close>, and the list
  of the nodes it was parsed with. The children the DOM shows are \<open>childNodes\<close>; the
  kept nodes of a replaced element have no parent, but keep their own subtrees.

  What replaces the children of an element is \<open>inline\<close> markup, text and
  \<^verbatim>\<open>span\<close> elements with a class attribute: the text node that the \<^verbatim>\<open>textContent\<close>
  setter creates, and what the highlighting engine renders into a block (highlight.js
  writes nested \<^verbatim>\<open>span\<close> elements and text). These nodes are created by the setter
  or the engine; the script holds no reference to them, so they have no address.

  \<open>get\<close> reads the node at an address and \<open>upd\<close> changes it; an address that leads
  nowhere reads as \<open>None\<close> and is not changed. The state of a run is the page
  and the list of the elements the engine has been called on, in the order of the calls.

  The highlighting engine is not part of the repository. It is a parameter of the
  script: given the element it is called on and the page, it returns the page it has
  made of it. What \<^verbatim>\<open>window.hljs\<close> holds is an \<open>engine option\<close>.
\<close>

type_synonym path = "nat list"

datatype inline = Span string "inline list" | Chars string

datatype node =
    Element string string "inline list option" "node list"
  | Text string
  | Comment string

type_synonym engine = "path \<Rightarrow> node \<Rightarrow> node"

datatype error = SyntaxError | InvalidCharacterError

record page =
  document :: node
  highlighted :: "path list"

fun get :: "node \<Rightarrow> path \<Rightarrow> node option" where
  "get n [] = Some n"
| "get (Element tag cls r ns) (i # p) = (if i < length ns then get (ns ! i) p else None)"
| "get (Text s) (i # p) = None"
| "get (Comment s) (i # p) = None"

fun upd :: "path \<Rightarrow> (node \<Rightarrow> node) \<Rightarrow> node \<Rightarrow> node" where
  "upd [] f n = f n"
| "upd (i # p) f (Element tag cls r ns) =
     (if i < length ns then Element tag cls r (ns[i := upd p f (ns ! i)])
      else Element tag cls r ns)"
| "upd (i # p) f (Text s) = Text s"
| "upd (i # p) f (Comment s) = Comment s"

fun node_of :: "inline \<Rightarrow> node" where
  "node_of (Span cls ms) = Element ''span'' cls None (map node_of ms)"
| "node_of (Chars t) = Text t"

fun childNodes :: "node \<Rightarrow> node list" where
  "childNodes (Element tag cls None ns) = ns"
| "childNodes (Element tag cls (Some ms) ns) = map node_of ms"
| "childNodes (Text s) = []"
| "childNodes (Comment s) = []"

subsection \<open>Class tokens\<close>

text \<open>
  \<^verbatim>\<open>element.classList\<close> is the ordered set obtained by splitting the attribute on ASCII
  whitespace (tab, line feed, form feed, carriage return, space) and keeping the first
  occurrence of every token. \<^verbatim>\<open>classList.add(token)\<close> throws on an empty token or one
  with whitespace, appends the token to the set if it is not there, and writes the set
  back to the attribute, tokens separated by one space.
\<close>

definition is_ws :: "char \<Rightarrow> bool" where
  "is_ws c = (c = CHR 0x09 \<or> c = CHR 0x0A \<or> c = CHR 0x0C \<or> c = CHR 0x0D \<or> c = CHR 0x20)"

fun split_ws :: "string \<Rightarrow> string \<Rightarrow> string list" where
  "split_ws cur [] = (if cur = [] then [] else [cur])"
| "split_ws cur (c # cs) =
     (if is_ws c then (if cur = [] then [] else [cur]) @ split_ws [] cs
      else split_ws (cur @ [c]) cs)"

definition append_token :: "string list \<Rightarrow> string \<Rightarrow> string list" where
  "append_token ts t = (if t \<in> set ts then ts else ts @ [t])"

definition ordered_set :: "string list \<Rightarrow> string list" where
  "ordered_set ts = foldl append_token [] ts"

definition token_set :: "string \<Rightarrow> string list" where
  "token_set attr = ordered_set (split_ws [] attr)"

fun serialize :: "string list \<Rightarrow> string" where
  "serialize [] = []"
| "serialize [t] = t"
| "serialize (t # u # ts) = t @ CHR 0x20 # serialize (u # ts)"

definition classList_add :: "string \<Rightarrow> string \<Rightarrow> error + string" where
  "classList_add tok attr =
     (if tok = [] then Inl SyntaxError
      else if \<exists>c \<in> set tok. is_ws c then Inl InvalidCharacterError
      else Inr (serialize (append_token (token_set attr) tok)))"

subsection \<open>The DOM operations the script calls\<close>

definition classList :: "node \<Rightarrow> path \<Rightarrow> string list" where
  "classList d p =
     (case get d p of Some (Element tag cls r ns) \<Rightarrow> token_set cls | _ \<Rightarrow> [])"

definition localName :: "node \<Rightarrow> path \<Rightarrow> string option" where
  "localName d p =
     (case get d p of Some (Element tag cls r ns) \<Rightarrow> Some tag | _ \<Rightarrow> None)"

text \<open>
  \<^verbatim>\<open>node.parentElement\<close>: the parent when it is an element. The root element has none
  (its parent is the document), and neither has a node that was removed from its
  parent.
\<close>

definition parentElement :: "node \<Rightarrow> path \<Rightarrow> path option" where
  "parentElement d p =
     (if p = [] then None
      else case get d (butlast p) of
             Some (Element tag cls None ns) \<Rightarrow> Some (butlast p)
           | _ \<Rightarrow> None)"

text \<open>
  \<^verbatim>\<open>element.closest(".cls")\<close>: the element itself if it carries the class, otherwise
  the search goes on from its parent element; \<^verbatim>\<open>null\<close> when the chain ends.
\<close>

function closest :: "string \<Rightarrow> node \<Rightarrow> path \<Rightarrow> path option" where
  "closest c d p =
     (if c \<in> set (classList d p) then Some p
      else case parentElement d p of None \<Rightarrow> None | Some q \<Rightarrow> closest c d q)"
  by pat_completeness auto
termination
  by (relation "measure (\<lambda>(c, d, p). length p)")
     (auto simp: parentElement_def split: if_splits option.splits node.splits)

declare closest.simps [simp del]

text \<open>
  \<^verbatim>\<open>element.querySelector("span") !== null\<close>: some element with that name is a
  descendant of the element (the element itself does not count).
\<close>

fun is_element :: "string \<Rightarrow> node \<Rightarrow> bool" where
  "is_element name (Element tag cls r ns) = (tag = name)"
| "is_element name (Text s) = False"
| "is_element name (Comment s) = False"

fun inline_has :: "string \<Rightarrow> inline \<Rightarrow> bool" where
  "inline_has name (Span cls ms) = (name = ''span'' \<or> (\<exists>m \<in> set ms. inline_has name m))"
| "inline_has name (Chars t) = False"

fun has_descendant :: "string \<Rightarrow> node \<Rightarrow> bool" where
  "has_descendant name (Element tag cls None ns) =
     (\<exists>n \<in> set ns. is_element name n \<or> has_descendant name n)"
| "has_descendant name (Element tag cls (Some ms) ns) = (\<exists>m \<in> set ms. inline_has name m)"
| "has_descendant name (Text s) = False"
| "has_descendant name (Comment s) = False"

definition querySelector :: "string \<Rightarrow> node \<Rightarrow> path \<Rightarrow> bool" where
  "querySelector name d p =
     (case get d p of Some n \<Rightarrow> has_descendant name n | None \<Rightarrow> False)"

text \<open>
  The \<^verbatim>\<open>textContent\<close> getter of an element: the data of its text node descendants,
  concatenated in tree order; comments inside it contribute nothing. On a text or
  comment node the getter returns the node's own data.
\<close>

fun inline_text :: "inline \<Rightarrow> string" where
  "inline_text (Span cls ms) = concat (map inline_text ms)"
| "inline_text (Chars t) = t"

fun descendant_text :: "node \<Rightarrow> string" where
  "descendant_text (Element tag cls None ns) = concat (map descendant_text ns)"
| "descendant_text (Element tag cls (Some ms) ns) = concat (map inline_text ms)"
| "descendant_text (Text s) = s"
| "descendant_text (Comment s) = []"

definition textContent :: "node \<Rightarrow> path \<Rightarrow> string" where
  "textContent d p =
     (case get d p of
        Some (Comment s) \<Rightarrow> s
      | Some n \<Rightarrow> descendant_text n
      | None \<Rightarrow> [])"

text \<open>
  The \<^verbatim>\<open>textContent\<close> setter: every child is replaced by one text node, by nothing
  when the string is empty.
\<close>

fun replace_all :: "string \<Rightarrow> node \<Rightarrow> node" where
  "replace_all t (Element tag cls r ns) =
     Element tag cls (Some (if t = [] then [] else [Chars t])) ns"
| "replace_all t (Text s) = Text t"
| "replace_all t (Comment s) = Comment t"

definition set_textContent :: "path \<Rightarrow> string \<Rightarrow> node \<Rightarrow> node" where
  "set_textContent p t d = upd p (replace_all t) d"

fun set_class :: "string \<Rightarrow> node \<Rightarrow> node" where
  "set_class a (Element tag cls r ns) = Element tag a r ns"
| "set_class a (Text s) = Text s"
| "set_class a (Comment s) = Comment s"

definition class_attr :: "node \<Rightarrow> path \<Rightarrow> string" where
  "class_attr d p = (case get d p of Some (Element tag cls r ns) \<Rightarrow> cls | _ \<Rightarrow> [])"

definition add_class :: "path \<Rightarrow> string \<Rightarrow> node \<Rightarrow> error + node" where
  "add_class p tok d =
     (case classList_add tok (class_attr d p) of
        Inl e \<Rightarrow> Inl e
      | Inr a \<Rightarrow> Inr (upd p (set_class a) d))"

text \<open>
  \<^verbatim>\<open>document.querySelectorAll("pre code")\<close>: the elements named \<^verbatim>\<open>code\<close> that have an
  ancestor element named \<^verbatim>\<open>pre\<close>, in tree order, as a static list. The flag says
  whether a \<^verbatim>\<open>pre\<close> ancestor has been passed; the walk follows the children the DOM
  shows, so it does not enter the kept nodes of a replaced element.
\<close>

fun select :: "bool \<Rightarrow> node \<Rightarrow> path list"
  and select_from :: "bool \<Rightarrow> nat \<Rightarrow> node list \<Rightarrow> path list" where
  "select in_pre (Element tag cls r ns) =
     (if tag = ''code'' \<and> in_pre then [[]] else []) @
     (case r of None \<Rightarrow> select_from (in_pre \<or> tag = ''pre'') 0 ns | Some t \<Rightarrow> [])"
| "select in_pre (Text s) = []"
| "select in_pre (Comment s) = []"
| "select_from in_pre i [] = []"
| "select_from in_pre i (n # ns) =
     map ((#) i) (select in_pre n) @ select_from in_pre (Suc i) ns"

definition querySelectorAll :: "node \<Rightarrow> path list" where
  "querySelectorAll d = select False d"

section \<open>The script\<close>

text \<open>
  \<^verbatim>\<open>window.hljs.highlightElement(code)\<close>: the engine is given the element and the page
  as it is at the call, the page becomes what the engine returns, and the call is
  recorded. The engine is taken to return, as the specification takes it.
\<close>

definition highlightElement :: "engine \<Rightarrow> path \<Rightarrow> page \<Rightarrow> page" where
  "highlightElement hljs code s =
     s\<lparr>document := hljs code (document s), highlighted := highlighted s @ [code]\<rparr>"

text \<open>
  \<^verbatim>\<open>if (code.querySelector("span")) { code.textContent = code.textContent; }\<close>
\<close>

definition strip :: "path \<Rightarrow> node \<Rightarrow> node" where
  "strip code d =
     (if querySelector ''span'' d code then set_textContent code (textContent d code) d
      else d)"

text \<open>
  \<^verbatim>\<open>const wrapper = pre.closest(".highlighter-rouge"); const langSource = wrapper || pre;\<close>
\<close>

definition langSource :: "node \<Rightarrow> path \<Rightarrow> path" where
  "langSource d pre =
     (case closest ''highlighter-rouge'' d pre of Some wrapper \<Rightarrow> wrapper | None \<Rightarrow> pre)"

text \<open>
  \<^verbatim>\<open>Array.from(langSource.classList).find((cls) => cls.startsWith("language-"))\<close>
\<close>

definition langClass :: "node \<Rightarrow> path \<Rightarrow> string option" where
  "langClass d pre = find (prefix ''language-'') (classList d (langSource d pre))"

text \<open>
  \<^verbatim>\<open>if (langClass && !code.classList.contains(langClass)) code.classList.add(langClass);\<close>
\<close>

definition resolve :: "path \<Rightarrow> path \<Rightarrow> node \<Rightarrow> error + node" where
  "resolve code pre d =
     (case langClass d pre of
        None \<Rightarrow> Inr d
      | Some cls \<Rightarrow>
          if cls \<notin> set (classList d code) then add_class code cls d else Inr d)"

text \<open>
  The body of the \<^verbatim>\<open>forEach\<close> callback, for one element of the node list:
  \<^verbatim>\<open>const pre = code.parentElement; if (!pre) return;\<close>, then the stripper, the
  resolver on the stripped page, and \<^verbatim>\<open>window.hljs.highlightElement(code)\<close>.
\<close>

definition block :: "engine \<Rightarrow> path \<Rightarrow> page \<Rightarrow> error + page" where
  "block hljs code s =
     (case parentElement (document s) code of
        None \<Rightarrow> Inr s
      | Some pre \<Rightarrow>
          (case resolve code pre (strip code (document s)) of
             Inl e \<Rightarrow> Inl e
           | Inr d \<Rightarrow> Inr (highlightElement hljs code (s\<lparr>document := d\<rparr>))))"

text \<open>\<^verbatim>\<open>forEach\<close>: the callback on every element in turn; an exception ends the loop.\<close>

fun forEach :: "engine \<Rightarrow> path list \<Rightarrow> page \<Rightarrow> error + page" where
  "forEach hljs [] s = Inr s"
| "forEach hljs (code # rest) s =
     (case block hljs code s of Inl e \<Rightarrow> Inl e | Inr s' \<Rightarrow> forEach hljs rest s')"

text \<open>
  The whole script:
  \<^verbatim>\<open>if (!window.hljs) return; document.querySelectorAll("pre code").forEach(...)\<close>.
  The first argument is \<^verbatim>\<open>window.hljs\<close>: \<open>None\<close> when it is absent.
\<close>

definition pass :: "engine option \<Rightarrow> page \<Rightarrow> error + page" where
  "pass window_hljs s =
     (case window_hljs of
        None \<Rightarrow> Inr s
      | Some hljs \<Rightarrow> forEach hljs (querySelectorAll (document s)) s)"

section \<open>Notions used in the statements and proofs\<close>

text \<open>
  \<open>content\<close> is \<^verbatim>\<open>element.childNodes\<close> at an address. \<open>markup\<close> is the condition
  in the specification's words, "its content contains any nested markup elements": some
  element, of any name, is a descendant of the node. \<open>inclusive_ancestors\<close> is the
  chain an upward walk visits, in the specification's words "starting from the
  Container and walking upward": the element, its parent element, and so on.
  \<open>attached\<close> says that the address holds an element that is in the document: no
  node above it has had its children replaced.

  For the proofs: \<open>at\<close> is a node without the nodes kept below it, that is its kind,
  name, class attribute and replacement markup; a \<open>mutator\<close> changes a node but not
  the nodes kept under it, and a \<open>tame\<close> one keeps the name as well and never brings
  replaced children back. \<open>pre_ordered\<close> says that no address of a list is a prefix
  of an earlier one, as in tree order. \<open>gained\<close> relates a class list to one with at
  most one \<^verbatim>\<open>language-\<close> token appended.

  Three conditions on what is outside the script. An engine is \<open>local_engine\<close> when
  it changes nothing but the element it is called on, and of it the class attribute and
  the children, which it may replace by what it renders. It \<open>keeps_tokens\<close> when it
  removes no class token from any element. A page is \<open>flat\<close> when no block of its
  node list is inside another block of the list. A block is \<open>resolved\<close> when the
  token the resolver selects for it is already in its class list.
\<close>

fun kept :: "node \<Rightarrow> node list" where
  "kept (Element tag cls r ns) = ns"
| "kept (Text s) = []"
| "kept (Comment s) = []"

fun own :: "node \<Rightarrow> node" where
  "own (Element tag cls r ns) = Element tag cls r []"
| "own (Text s) = Text s"
| "own (Comment s) = Comment s"

definition at :: "node \<Rightarrow> path \<Rightarrow> node option" where
  "at d p = map_option own (get d p)"

definition mutator :: "(node \<Rightarrow> node) \<Rightarrow> bool" where
  "mutator f = (\<forall>n. kept (f n) = kept n)"

definition content :: "node \<Rightarrow> path \<Rightarrow> node list" where
  "content d p = (case get d p of Some n \<Rightarrow> childNodes n | None \<Rightarrow> [])"

fun nested_markup :: "node \<Rightarrow> bool" where
  "nested_markup (Element tag cls None ns) =
     (\<exists>n \<in> set ns. (case n of Element t c r ms \<Rightarrow> True | _ \<Rightarrow> False) \<or> nested_markup n)"
| "nested_markup (Element tag cls (Some ms) ns) =
     (\<exists>m \<in> set ms. (case m of Span c ks \<Rightarrow> True | Chars t \<Rightarrow> False))"
| "nested_markup (Text s) = False"
| "nested_markup (Comment s) = False"

function inclusive_ancestors :: "node \<Rightarrow> path \<Rightarrow> path list" where
  "inclusive_ancestors d p =
     p # (case parentElement d p of None \<Rightarrow> [] | Some q \<Rightarrow> inclusive_ancestors d q)"
  by pat_completeness auto
termination
  by (relation "measure (\<lambda>(d, p). length p)")
     (auto simp: parentElement_def split: if_splits option.splits node.splits)

declare inclusive_ancestors.simps [simp del]

definition valid_token :: "string \<Rightarrow> bool" where
  "valid_token t = (t \<noteq> [] \<and> (\<forall>c \<in> set t. \<not> is_ws c))"

definition markup :: "node \<Rightarrow> path \<Rightarrow> bool" where
  "markup d p = (case get d p of Some n \<Rightarrow> nested_markup n | None \<Rightarrow> False)"

fun same_kind :: "node \<Rightarrow> node \<Rightarrow> bool" where
  "same_kind (Element tag cls r ns) (Element tag' cls' r' ns') =
     (tag' = tag \<and> ns' = ns \<and> (r \<noteq> None \<longrightarrow> r' \<noteq> None))"
| "same_kind (Text s) (Text s') = True"
| "same_kind (Comment s) (Comment s') = True"
| "same_kind n n' = False"

definition tame :: "(node \<Rightarrow> node) \<Rightarrow> bool" where
  "tame f = (\<forall>n. same_kind n (f n))"

fun pre_ordered :: "path list \<Rightarrow> bool" where
  "pre_ordered [] = True"
| "pre_ordered (c # cs) = ((\<forall>c' \<in> set cs. \<not> prefix c' c) \<and> pre_ordered cs)"

definition unreplaced :: "node \<Rightarrow> path \<Rightarrow> bool" where
  "unreplaced d q = (case get d q of Some (Element tag cls None ns) \<Rightarrow> True | _ \<Rightarrow> False)"

fun attached :: "node \<Rightarrow> path \<Rightarrow> bool" where
  "attached (Element tag cls r ns) [] = True"
| "attached (Text s) [] = False"
| "attached (Comment s) [] = False"
| "attached (Element tag cls None ns) (i # p) = (i < length ns \<and> attached (ns ! i) p)"
| "attached (Element tag cls (Some t) ns) (i # p) = False"
| "attached (Text s) (i # p) = False"
| "attached (Comment s) (i # p) = False"

definition gained :: "string list \<Rightarrow> string list \<Rightarrow> bool" where
  "gained old new =
     (new = old \<or> (\<exists>cls. prefix ''language-'' cls \<and> cls \<notin> set old \<and> new = old @ [cls]))"

definition local_engine :: "engine \<Rightarrow> bool" where
  "local_engine hljs = (\<forall>c d. \<exists>f. tame f \<and> hljs c d = upd c f d)"

definition keeps_tokens :: "engine \<Rightarrow> bool" where
  "keeps_tokens hljs = (\<forall>c d q. set (classList d q) \<subseteq> set (classList (hljs c d) q))"

definition flat :: "node \<Rightarrow> bool" where
  "flat d =
     (\<forall>c \<in> set (querySelectorAll d). \<forall>c' \<in> set (querySelectorAll d). \<not> strict_prefix c c')"

definition resolved :: "node \<Rightarrow> path \<Rightarrow> bool" where
  "resolved d c = (\<forall>cls. langClass d (butlast c) = Some cls \<longrightarrow> cls \<in> set (classList d c))"

subsection \<open>Example engines and pages\<close>

text \<open>
  \<open>no_effect\<close> is an engine that leaves the page as it is. \<open>hljs_like\<close> does to a
  block what highlight.js does, in small: it adds the class \<^verbatim>\<open>hljs\<close> to the block and
  replaces the children of the block by a \<^verbatim>\<open>span\<close> element around the text.

  \<open>three_blocks\<close> is a page with a plain block, a block in a wrapper that names
  \<^verbatim>\<open>language-js\<close>, and a block with a \<^verbatim>\<open>span\<close> in a wrapper that names
  \<^verbatim>\<open>language-go\<close>. \<open>nested_blocks\<close> has a block nested in a block beside a
  \<^verbatim>\<open>span\<close>, followed by a plain block. \<open>go_block\<close> is a block that already has the
  class its wrapper names. The pages \<open>_done\<close> are what the pass makes of them with
  \<open>no_effect\<close>, the page \<open>_rendered\<close> what it makes with \<open>hljs_like\<close>.
\<close>

definition no_effect :: engine where
  "no_effect code d = d"

fun render :: "node \<Rightarrow> node" where
  "render (Element tag cls r ns) =
     Element tag (serialize (append_token (token_set cls) ''hljs''))
       (Some [Span ''hljs-keyword'' [Chars (descendant_text (Element tag cls r ns))]]) ns"
| "render (Text s) = Text s"
| "render (Comment s) = Comment s"

definition hljs_like :: engine where
  "hljs_like code d = upd code render d"

definition three_blocks :: node where
  "three_blocks =
     Element ''body'' [] None
       [Element ''pre'' [] None [Element ''code'' [] None [Text ''a'']],
        Element ''div'' ''highlighter-rouge language-js'' None
          [Element ''pre'' ''highlight'' None [Element ''code'' [] None [Text ''let x'']]],
        Element ''div'' ''language-go highlighter-rouge'' None
          [Element ''pre'' [] None
             [Element ''code'' [] None
                [Element ''span'' ''k'' None [Text ''func''], Text '' f'']]]]"

definition three_blocks_done :: node where
  "three_blocks_done =
     Element ''body'' [] None
       [Element ''pre'' [] None [Element ''code'' [] None [Text ''a'']],
        Element ''div'' ''highlighter-rouge language-js'' None
          [Element ''pre'' ''highlight'' None
             [Element ''code'' ''language-js'' None [Text ''let x'']]],
        Element ''div'' ''language-go highlighter-rouge'' None
          [Element ''pre'' [] None
             [Element ''code'' ''language-go'' (Some [Chars ''func f''])
                [Element ''span'' ''k'' None [Text ''func''], Text '' f'']]]]"

definition three_blocks_rendered :: node where
  "three_blocks_rendered =
     Element ''body'' [] None
       [Element ''pre'' [] None
          [Element ''code'' ''hljs'' (Some [Span ''hljs-keyword'' [Chars ''a'']]) [Text ''a'']],
        Element ''div'' ''highlighter-rouge language-js'' None
          [Element ''pre'' ''highlight'' None
             [Element ''code'' ''language-js hljs'' (Some [Span ''hljs-keyword'' [Chars ''let x'']])
                [Text ''let x'']]],
        Element ''div'' ''language-go highlighter-rouge'' None
          [Element ''pre'' [] None
             [Element ''code'' ''language-go hljs'' (Some [Span ''hljs-keyword'' [Chars ''func f'']])
                [Element ''span'' ''k'' None [Text ''func''], Text '' f'']]]]"

definition nested_blocks :: node where
  "nested_blocks =
     Element ''body'' [] None
       [Element ''pre'' [] None
          [Element ''code'' [] None
             [Element ''span'' [] None [Text ''a''], Element ''code'' [] None [Text ''b'']]],
        Element ''pre'' [] None [Element ''code'' [] None [Text ''c'']]]"

definition nested_blocks_done :: node where
  "nested_blocks_done =
     Element ''body'' [] None
       [Element ''pre'' [] None
          [Element ''code'' [] (Some [Chars ''ab''])
             [Element ''span'' [] None [Text ''a''], Element ''code'' [] None [Text ''b'']]],
        Element ''pre'' [] None [Element ''code'' [] None [Text ''c'']]]"

definition go_block :: node where
  "go_block =
     Element ''div'' ''highlighter-rouge language-go'' None
       [Element ''pre'' [] None [Element ''code'' ''language-go'' None [Text ''x'']]]"

section \<open>Class tokens: lemmas\<close>

lemma split_ws_valid:
  "(\<forall>c \<in> set cur. \<not> is_ws c) \<Longrightarrow> t \<in> set (split_ws cur s) \<Longrightarrow> valid_token t"
proof (induction s arbitrary: cur)
  case Nil
  then show ?case by (auto simp: valid_token_def split: if_splits)
next
  case (Cons c s)
  show ?case
  proof (cases "is_ws c")
    case True
    with Cons.prems have "t = cur \<and> cur \<noteq> [] \<or> t \<in> set (split_ws [] s)"
      by (auto split: if_splits)
    then show ?thesis
    proof
      assume "t = cur \<and> cur \<noteq> []"
      with Cons.prems(1) show ?thesis by (simp add: valid_token_def)
    next
      assume "t \<in> set (split_ws [] s)"
      then show ?thesis using Cons.IH [of "[]"] by simp
    qed
  next
    case False
    with Cons.prems have "t \<in> set (split_ws (cur @ [c]) s)" by simp
    moreover have "\<forall>x \<in> set (cur @ [c]). \<not> is_ws x" using False Cons.prems(1) by simp
    ultimately show ?thesis using Cons.IH [of "cur @ [c]"] by blast
  qed
qed

lemma set_foldl_append_token:
  "set (foldl append_token acc ts) = set acc \<union> set ts"
  by (induction ts arbitrary: acc) (auto simp: append_token_def)

lemma distinct_foldl_append_token:
  "distinct acc \<Longrightarrow> distinct (foldl append_token acc ts)"
  by (induction ts arbitrary: acc) (auto simp: append_token_def)

lemma foldl_append_token_distinct:
  "distinct (acc @ ts) \<Longrightarrow> foldl append_token acc ts = acc @ ts"
  by (induction ts arbitrary: acc) (auto simp: append_token_def)

lemma set_ordered_set [simp]: "set (ordered_set ts) = set ts"
  by (simp add: ordered_set_def set_foldl_append_token)

lemma distinct_ordered_set [simp]: "distinct (ordered_set ts)"
  by (simp add: ordered_set_def distinct_foldl_append_token)

lemma ordered_set_distinct: "distinct ts \<Longrightarrow> ordered_set ts = ts"
  using foldl_append_token_distinct [of "[]" ts] by (simp add: ordered_set_def)

lemma token_set_valid: "t \<in> set (token_set a) \<Longrightarrow> valid_token t"
  using split_ws_valid [of "[]" t a] by (simp add: token_set_def)

lemma distinct_token_set [simp]: "distinct (token_set a)"
  by (simp add: token_set_def)

lemma split_ws_token:
  "\<forall>c \<in> set t. \<not> is_ws c \<Longrightarrow> split_ws cur (t @ s) = split_ws (cur @ t) s"
  by (induction t arbitrary: cur) auto

lemma split_ws_serialize:
  "\<forall>t \<in> set ts. valid_token t \<Longrightarrow> split_ws [] (serialize ts) = ts"
proof (induction ts rule: serialize.induct)
  case 1
  then show ?case by simp
next
  case (2 t)
  then show ?case
    using split_ws_token [of t "[]" "[]"] by (simp add: valid_token_def)
next
  case (3 t u ts)
  have "split_ws [] (t @ CHR 0x20 # serialize (u # ts)) = split_ws t (CHR 0x20 # serialize (u # ts))"
    using 3 split_ws_token [of t "[]"] by (simp add: valid_token_def)
  also have "\<dots> = t # split_ws [] (serialize (u # ts))"
    using 3 by (simp add: valid_token_def is_ws_def)
  finally show ?case using 3 by simp
qed

lemma token_set_serialize:
  "\<forall>t \<in> set ts. valid_token t \<Longrightarrow> distinct ts \<Longrightarrow> token_set (serialize ts) = ts"
  by (simp add: token_set_def split_ws_serialize ordered_set_distinct)

lemma classList_add_valid:
  assumes "valid_token tok"
  shows "\<exists>a. classList_add tok attr = Inr a \<and> token_set a = append_token (token_set attr) tok"
proof -
  let ?ts = "append_token (token_set attr) tok"
  have v: "\<forall>t \<in> set ?ts. valid_token t"
    using assms token_set_valid by (auto simp: append_token_def)
  have d: "distinct ?ts" by (simp add: append_token_def)
  show ?thesis
    using assms token_set_serialize [OF v d] by (auto simp: classList_add_def valid_token_def)
qed


section \<open>Addresses and updates: lemmas\<close>

lemma get_Cons: "get n (i # r) = (if i < length (kept n) then get (kept n ! i) r else None)"
  by (cases n) auto

lemma get_upd_same: "get (upd p f d) p = map_option f (get d p)"
proof (induction p arbitrary: d)
  case Nil
  then show ?case by simp
next
  case (Cons i p)
  then show ?case by (cases d) auto
qed

lemma get_upd: "mutator f \<Longrightarrow> \<not> prefix q p \<Longrightarrow> get (upd p f d) q = get d q"
proof (induction p arbitrary: d q)
  case Nil
  then obtain i r where "q = i # r" by (cases q) auto
  then show ?case using Nil by (simp add: get_Cons mutator_def)
next
  case (Cons i p)
  then obtain j r where q: "q = j # r" by (cases q) auto
  show ?case
  proof (cases d)
    case (Element tag cls rp ns)
    show ?thesis
    proof (cases "j = i \<and> i < length ns")
      case True
      with Cons.prems q have "\<not> prefix r p" by simp
      with Cons.IH [OF Cons.prems(1)] True q Element show ?thesis by simp
    next
      case False
      with q Element show ?thesis by auto
    qed
  qed (simp_all add: q)
qed

lemma at_upd: "mutator f \<Longrightarrow> q \<noteq> p \<Longrightarrow> at (upd p f d) q = at d q"
proof (induction p arbitrary: d q)
  case Nil
  then show ?case using get_upd [of f q "[]" d] by (simp add: at_def)
next
  case (Cons i p)
  show ?case
  proof (cases d)
    case (Element tag cls rp ns)
    show ?thesis
    proof (cases q)
      case Nil
      with Element show ?thesis by (simp add: at_def)
    next
      case (Cons j r)
      show ?thesis
      proof (cases "j = i \<and> i < length ns")
        case True
        with Cons.prems Cons have "r \<noteq> p" by simp
        from Cons.IH [OF Cons.prems(1) this, of "ns ! i"] True Cons Element
        show ?thesis by (simp add: at_def)
      next
        case False
        with Cons Element show ?thesis by (auto simp: at_def)
      qed
    qed
  qed (simp_all add: at_def)
qed

subsection \<open>What the DOM operations depend on\<close>

lemma mutator_replace_all [simp]: "mutator (replace_all t)"
  unfolding mutator_def
proof
  fix n show "kept (replace_all t n) = kept n" by (cases n) auto
qed


lemma mutator_set_class [simp]: "mutator (set_class a)"
  unfolding mutator_def
proof
  fix n show "kept (set_class a n) = kept n" by (cases n) auto
qed


lemma own_eq_cases:
  "own m = own n \<Longrightarrow>
     (\<exists>tag cls r ms ns. m = Element tag cls r ms \<and> n = Element tag cls r ns) \<or>
     (m = n \<and> kept n = [] \<and> (\<forall>tag cls r ns. n \<noteq> Element tag cls r ns))"
  by (cases m; cases n) auto


lemma classList_at: "at d' p = at d p \<Longrightarrow> classList d' p = classList d p"
proof -
  assume a: "at d' p = at d p"
  show ?thesis
  proof (cases "get d p")
    case None
    then have "get d' p = None" using a by (simp add: at_def)
    with None show ?thesis by (simp add: classList_def)
  next
    case (Some n)
    then obtain m where m: "get d' p = Some m" "own m = own n" using a by (auto simp: at_def)
    from own_eq_cases [OF m(2)] show ?thesis
      using Some m(1) by (auto simp: classList_def)
  qed
qed


lemma localName_at: "at d' p = at d p \<Longrightarrow> localName d' p = localName d p"
proof -
  assume a: "at d' p = at d p"
  show ?thesis
  proof (cases "get d p")
    case None
    then have "get d' p = None" using a by (simp add: at_def)
    with None show ?thesis by (simp add: localName_def)
  next
    case (Some n)
    then obtain m where m: "get d' p = Some m" "own m = own n" using a by (auto simp: at_def)
    from own_eq_cases [OF m(2)] show ?thesis
      using Some m(1) by (auto simp: localName_def)
  qed
qed


lemma parentElement_at:
  "at d' (butlast p) = at d (butlast p) \<Longrightarrow> parentElement d' p = parentElement d p"
proof -
  assume a: "at d' (butlast p) = at d (butlast p)"
  show ?thesis
  proof (cases "get d (butlast p)")
    case None
    then have "get d' (butlast p) = None" using a by (simp add: at_def)
    with None show ?thesis by (simp add: parentElement_def)
  next
    case (Some n)
    then obtain m where m: "get d' (butlast p) = Some m" "own m = own n"
      using a by (auto simp: at_def)
    from own_eq_cases [OF m(2)] show ?thesis
      using Some m(1) by (auto simp: parentElement_def split: option.splits)
  qed
qed


lemma parentElement_Some: "parentElement d p = Some q \<Longrightarrow> p \<noteq> [] \<and> q = butlast p"
  by (auto simp: parentElement_def split: if_splits option.splits node.splits)


lemma closest_at:
  "(\<And>q. prefix q p \<Longrightarrow> at d' q = at d q) \<Longrightarrow> closest c d' p = closest c d p"
proof (induction c d p rule: closest.induct)
  case (1 c d p)
  have cl: "classList d' p = classList d p"
    by (rule classList_at) (rule 1(2), simp)
  have pe: "parentElement d' p = parentElement d p"
    by (rule parentElement_at) (rule 1(2), simp add: prefixeq_butlast)
  show ?case
  proof (cases "c \<in> set (classList d p)")
    case True
    then show ?thesis using cl by (simp add: closest.simps [of c _ p])
  next
    case False
    show ?thesis
    proof (cases "parentElement d p")
      case None
      then show ?thesis using False cl pe by (simp add: closest.simps [of c _ p])
    next
      case (Some q)
      then have q: "q = butlast p" using parentElement_Some by blast
      have "closest c d' q = closest c d q"
      proof (rule 1(1) [OF False Some])
        fix r assume "prefix r q"
        then have "prefix r p" using q prefixeq_butlast prefix_order.trans by blast
        then show "at d' r = at d r" by (rule 1(2))
      qed
      then show ?thesis using False cl pe Some by (simp add: closest.simps [of c _ p])
    qed
  qed
qed


lemma closest_prefix: "closest c d p = Some w \<Longrightarrow> prefix w p"
proof (induction c d p rule: closest.induct)
  case (1 c d p)
  show ?case
  proof (cases "c \<in> set (classList d p)")
    case True
    then show ?thesis using 1(2) by (simp add: closest.simps [of c d p])
  next
    case False
    then obtain q where q: "parentElement d p = Some q" "closest c d q = Some w"
      using 1(2) by (auto simp: closest.simps [of c d p] split: option.splits)
    then have "prefix w q" using 1(1) False by blast
    moreover have "prefix q p" using q(1) parentElement_Some prefixeq_butlast by blast
    ultimately show ?thesis by auto
  qed
qed


lemma langSource_prefix: "prefix (langSource d pre) pre"
  by (auto simp: langSource_def dest: closest_prefix split: option.splits)


lemma langSource_at:
  "(\<And>q. prefix q p \<Longrightarrow> at d' q = at d q) \<Longrightarrow> langSource d' p = langSource d p"
  using closest_at [of p d' d] by (simp add: langSource_def)


lemma langClass_at:
  assumes "\<And>q. prefix q p \<Longrightarrow> at d' q = at d q"
  shows "langClass d' p = langClass d p"
proof -
  have "langSource d' p = langSource d p" using assms by (rule langSource_at)
  moreover have "at d' (langSource d p) = at d (langSource d p)"
    using assms langSource_prefix by blast
  ultimately show ?thesis using classList_at [of d' "langSource d p" d] by (simp add: langClass_def)
qed


lemma langClass_valid: "langClass d p = Some cls \<Longrightarrow> valid_token cls \<and> prefix ''language-'' cls"
  unfolding langClass_def classList_def
  by (auto simp: find_Some_iff split: option.splits node.splits dest: token_set_valid nth_mem)

subsection \<open>The stripper\<close>

lemma get_append:
  "get d (q @ r) = (case get d q of None \<Rightarrow> None | Some n \<Rightarrow> get n r)"
proof (induction q arbitrary: d)
  case Nil
  then show ?case by simp
next
  case (Cons i q)
  then show ?case by (cases d) auto
qed

lemma get_upd_prefix: "get (upd (q @ r) f d) q = map_option (upd r f) (get d q)"
proof (induction q arbitrary: d)
  case Nil
  then show ?case by simp
next
  case (Cons i q)
  then show ?case by (cases d) auto
qed

lemma descendant_text_replace_all:
  "descendant_text (replace_all (descendant_text n) n) = descendant_text n"
  by (cases n) auto

lemma descendant_text_upd:
  "get n r = Some m \<Longrightarrow>
   descendant_text (upd r (replace_all (descendant_text m)) n) = descendant_text n"
proof (induction r arbitrary: n)
  case Nil
  then show ?case by (simp add: descendant_text_replace_all)
next
  case (Cons i r)
  show ?case
  proof (cases n)
    case (Element tag cls rp ns)
    with Cons.prems have i: "i < length ns" and g: "get (ns ! i) r = Some m"
      by (auto split: if_splits)
    let ?x = "upd r (replace_all (descendant_text m)) (ns ! i)"
    have x: "descendant_text ?x = descendant_text (ns ! i)" using Cons.IH [OF g] .
    show ?thesis
    proof (cases rp)
      case None
      have "map descendant_text (ns[i := ?x]) = (map descendant_text ns)[i := descendant_text ?x]"
        by (simp add: map_update)
      also have "\<dots> = map descendant_text ns" using x i by (simp add: list_update_same_conv)
      finally show ?thesis using Element None i by simp
    next
      case (Some t)
      with Element i show ?thesis by simp
    qed
  qed (use Cons.prems in simp_all)
qed

lemma has_descendant_Element:
  "has_descendant name n \<Longrightarrow> \<exists>tag cls r ns. n = Element tag cls r ns"
  by (cases n) auto

lemma upd_Element:
  "\<exists>cls' r' ns'. upd p (replace_all t) (Element tag cls r ns) = Element tag cls' r' ns'"
  by (cases p) auto

lemma has_descendant_markup: "has_descendant name n \<Longrightarrow> nested_markup n"
proof (induction n rule: nested_markup.induct)
  case (1 tag cls ns)
  then obtain m where m: "m \<in> set ns" "is_element name m \<or> has_descendant name m" by auto
  show ?case
  proof (cases "is_element name m")
    case True
    then have "case m of Element t c r ms \<Rightarrow> True | _ \<Rightarrow> False" by (cases m) auto
    with m(1) show ?thesis by auto
  next
    case False
    with m have "nested_markup m" using 1(1) by blast
    with m(1) show ?thesis by auto
  qed
next
  case (2 tag cls ms ns)
  then obtain m where m: "m \<in> set ms" "inline_has name m" by auto
  from m(2) have "case m of Span c ks \<Rightarrow> True | Chars t \<Rightarrow> False" by (cases m) auto
  with m(1) show ?case by auto
qed simp_all

lemma strip_no_markup: "\<not> markup d code \<Longrightarrow> strip code d = d"
  using has_descendant_markup
  by (auto simp: strip_def markup_def querySelector_def split: option.splits)

subsection \<open>The resolver\<close>

lemma closest_find:
  "closest c d p = find (\<lambda>a. c \<in> set (classList d a)) (inclusive_ancestors d p)"
proof (induction c d p rule: closest.induct)
  case (1 c d p)
  show ?case
  proof (cases "c \<in> set (classList d p)")
    case True
    then show ?thesis
      by (simp add: closest.simps [of c d p] inclusive_ancestors.simps [of d p])
  next
    case False
    show ?thesis
    proof (cases "parentElement d p")
      case None
      with False show ?thesis
        by (simp add: closest.simps [of c d p] inclusive_ancestors.simps [of d p])
    next
      case (Some q)
      with False 1 show ?thesis
        by (simp add: closest.simps [of c d p] inclusive_ancestors.simps [of d p])
    qed
  qed
qed

lemma count_list_distinct: "distinct xs \<Longrightarrow> count_list xs x \<le> 1"
  by (induction xs) (auto simp: count_list_0_iff)

lemma classList_upd_set_class:
  "localName d code = Some tag \<Longrightarrow> classList (upd code (set_class a) d) code = token_set a"
  by (auto simp: localName_def classList_def get_upd_same split: option.splits node.splits)

lemma classList_get: "classList d p = token_set (class_attr d p)"
  by (auto simp: classList_def class_attr_def token_set_def ordered_set_def split: option.splits node.splits)

lemma count_classList: "count_list (classList d p) cls \<le> 1"
  using count_list_distinct [of "token_set (class_attr d p)" cls] by (simp add: classList_get)

lemma add_class_valid:
  assumes "valid_token tok"
  shows "\<exists>a. add_class code tok d = Inr (upd code (set_class a) d) \<and>
             token_set a = append_token (classList d code) tok"
proof -
  obtain a where "classList_add tok (class_attr d code) = Inr a"
      "token_set a = append_token (token_set (class_attr d code)) tok"
    using classList_add_valid [OF assms] by blast
  then show ?thesis by (auto simp: add_class_def classList_get)
qed

lemma resolve_None: "langClass d pre = None \<Longrightarrow> resolve code pre d = Inr d"
  by (simp add: resolve_def)

lemma resolve_Some:
  assumes "langClass d pre = Some cls"
  shows "\<exists>a. resolve code pre d =
               Inr (if cls \<in> set (classList d code) then d else upd code (set_class a) d) \<and>
             token_set a = append_token (classList d code) cls"
proof -
  have "valid_token cls" using assms langClass_valid by blast
  then obtain a where a: "add_class code cls d = Inr (upd code (set_class a) d)"
      "token_set a = append_token (classList d code) cls"
    using add_class_valid by blast
  then show ?thesis using assms by (auto simp: resolve_def)
qed

lemma resolve_total: "\<exists>d'. resolve code pre d = Inr d'"
  using resolve_None [of d pre code] resolve_Some [of d pre _ code]
  by (cases "langClass d pre") auto

lemma resolve_classList:
  assumes "langClass d pre = Some cls" "localName d code = Some tag"
  shows "\<exists>d'. resolve code pre d = Inr d' \<and>
              classList d' code = append_token (classList d code) cls"
proof -
  obtain a where a: "resolve code pre d =
               Inr (if cls \<in> set (classList d code) then d else upd code (set_class a) d)"
             "token_set a = append_token (classList d code) cls"
    using resolve_Some [OF assms(1)] by blast
  show ?thesis
  proof (cases "cls \<in> set (classList d code)")
    case True
    with a show ?thesis by (simp add: append_token_def)
  next
    case False
    with a assms(2) show ?thesis by (simp add: classList_upd_set_class)
  qed
qed

lemma find_first:
  "xs = ys @ t # zs \<Longrightarrow> P t \<Longrightarrow> \<forall>y \<in> set ys. \<not> P y \<Longrightarrow> find P xs = Some t"
  by (induction ys arbitrary: xs) auto

lemma langClass_upd_code:
  assumes "parentElement d code = Some pre" "mutator f"
  shows "langClass (upd code f d) pre = langClass d pre"
proof (rule langClass_at)
  fix q assume "prefix q pre"
  moreover have "pre = butlast code" "code \<noteq> []" using assms(1) parentElement_Some by blast+
  ultimately have "length q < length code"
    by (metis prefix_length_le length_butlast diff_less length_greater_0_conv less_one order_le_less_trans)
  then have "q \<noteq> code" by auto
  then show "at (upd code f d) q = at d q" using assms(2) by (rule at_upd [rotated])
qed

subsection \<open>One block and the loop\<close>

lemma same_kind_refl [simp]: "same_kind n n"
  by (cases n) auto

lemma same_kind_trans: "same_kind a b \<Longrightarrow> same_kind b c \<Longrightarrow> same_kind a c"
  by (cases a; cases b; cases c) auto

lemma same_kind_kept: "same_kind n m \<Longrightarrow> kept m = kept n"
  by (cases n; cases m) auto

lemma tame_mutator: "tame f \<Longrightarrow> mutator f"
  by (simp add: tame_def mutator_def same_kind_kept)

lemma tame_id [simp]: "tame (\<lambda>n. n)"
  by (simp add: tame_def)

lemma tame_replace_all [simp]: "tame (replace_all t)"
  unfolding tame_def
proof
  fix n show "same_kind n (replace_all t n)" by (cases n) auto
qed

lemma tame_set_class [simp]: "tame (set_class a)"
  unfolding tame_def
proof
  fix n show "same_kind n (set_class a n)" by (cases n) auto
qed

lemma tame_comp: "tame f \<Longrightarrow> tame g \<Longrightarrow> tame (\<lambda>n. f (g n))"
  unfolding tame_def using same_kind_trans by blast

lemma upd_id [simp]: "upd p (\<lambda>n. n) d = d"
proof (induction p arbitrary: d)
  case Nil
  then show ?case by simp
next
  case (Cons i p)
  then show ?case by (cases d) (auto simp: list_update_same_conv)
qed

lemma upd_upd: "upd p f (upd p g d) = upd p (\<lambda>n. f (g n)) d"
proof (induction p arbitrary: d)
  case Nil
  then show ?case by simp
next
  case (Cons i p)
  then show ?case by (cases d) auto
qed

lemma strip_upd: "\<exists>f. tame f \<and> strip code d = upd code f d"
proof (cases "querySelector ''span'' d code")
  case True
  then have "strip code d = upd code (replace_all (textContent d code)) d"
    by (simp add: strip_def set_textContent_def)
  then show ?thesis using tame_replace_all by blast
next
  case False
  then have "strip code d = upd code (\<lambda>n. n) d" by (simp add: strip_def)
  then show ?thesis using tame_id by blast
qed

lemma resolve_upd: "\<exists>f. tame f \<and> resolve code pre d = Inr (upd code f d)"
proof (cases "langClass d pre")
  case None
  then have "resolve code pre d = Inr (upd code (\<lambda>n. n) d)" by (simp add: resolve_None)
  then show ?thesis using tame_id by blast
next
  case (Some cls)
  then obtain a where a: "resolve code pre d =
      Inr (if cls \<in> set (classList d code) then d else upd code (set_class a) d)"
    using resolve_Some by blast
  show ?thesis
  proof (cases "cls \<in> set (classList d code)")
    case True
    with a have "resolve code pre d = Inr (upd code (\<lambda>n. n) d)" by simp
    then show ?thesis using tame_id by blast
  next
    case False
    with a have "resolve code pre d = Inr (upd code (set_class a) d)" by simp
    then show ?thesis using tame_set_class by blast
  qed
qed

lemma block_skip: "parentElement (document s) code = None \<Longrightarrow> block hljs code s = Inr s"
  by (simp add: block_def)

lemma block_run:
  assumes "parentElement (document s) code = Some pre"
  shows "\<exists>d'. resolve code pre (strip code (document s)) = Inr d' \<and>
              block hljs code s =
                Inr \<lparr>document = hljs code d', highlighted = highlighted s @ [code]\<rparr>"
proof -
  obtain d' where "resolve code pre (strip code (document s)) = Inr d'"
    using resolve_total by blast
  then show ?thesis using assms by (simp add: block_def highlightElement_def)
qed

lemma normalize_upd:
  "\<exists>f. tame f \<and> resolve code pre (strip code d) = Inr (upd code f d)"
proof -
  obtain f where f: "tame f" "strip code d = upd code f d" using strip_upd by blast
  obtain g where g: "tame g" "resolve code pre (strip code d) = Inr (upd code g (strip code d))"
    using resolve_upd by blast
  have "resolve code pre (strip code d) = Inr (upd code (\<lambda>n. g (f n)) d)"
    using f(2) g(2) by (simp add: upd_upd)
  then show ?thesis using tame_comp [OF g(1) f(1)] by blast
qed

lemma block_log:
  "\<exists>d'. block hljs code s = Inr \<lparr>document = d', highlighted = highlighted s\<rparr> \<or>
        block hljs code s = Inr \<lparr>document = d', highlighted = highlighted s @ [code]\<rparr>"
proof (cases "parentElement (document s) code")
  case None
  then have "block hljs code s = Inr \<lparr>document = document s, highlighted = highlighted s\<rparr>"
    by (simp add: block_skip)
  then show ?thesis by blast
next
  case (Some pre)
  then show ?thesis using block_run [OF Some, of hljs] by blast
qed

lemma block_effect:
  assumes "local_engine hljs"
  shows "\<exists>f. tame f \<and>
       (block hljs code s =
          Inr \<lparr>document = upd code f (document s), highlighted = highlighted s\<rparr> \<or>
        block hljs code s =
          Inr \<lparr>document = upd code f (document s), highlighted = highlighted s @ [code]\<rparr>)"
proof (cases "parentElement (document s) code")
  case None
  then have "block hljs code s = Inr \<lparr>document = upd code (\<lambda>n. n) (document s),
                                   highlighted = highlighted s\<rparr>"
    by (simp add: block_skip)
  then show ?thesis using tame_id by blast
next
  case (Some pre)
  obtain f where f: "tame f"
      "resolve code pre (strip code (document s)) = Inr (upd code f (document s))"
    using normalize_upd by blast
  obtain g where g: "tame g"
      "hljs code (upd code f (document s)) = upd code g (upd code f (document s))"
    using assms unfolding local_engine_def by blast
  have "block hljs code s = Inr \<lparr>document = upd code (\<lambda>n. g (f n)) (document s),
                              highlighted = highlighted s @ [code]\<rparr>"
    using block_run [OF Some, of hljs] f(2) g(2) by (simp add: upd_upd)
  then show ?thesis using tame_comp [OF g(1) f(1)] by blast
qed

lemma block_total: "\<exists>s'. block hljs code s = Inr s'"
  using block_log [of hljs code s] by auto

lemma forEach_total: "\<exists>s'. forEach hljs cs s = Inr s'"
proof (induction cs arbitrary: s)
  case Nil
  then show ?case by simp
next
  case (Cons c cs)
  obtain s1 where "block hljs c s = Inr s1" using block_total by blast
  then show ?case using Cons [of s1] by simp
qed

lemma pass_total: "\<exists>s'. pass w s = Inr s'"
  using forEach_total by (cases w) (auto simp: pass_def)

lemma forEach_at:
  "local_engine hljs \<Longrightarrow> forEach hljs cs s = Inr s' \<Longrightarrow> q \<notin> set cs \<Longrightarrow>
   at (document s') q = at (document s) q"
proof (induction cs arbitrary: s)
  case Nil
  then show ?case by simp
next
  case (Cons c cs)
  obtain f where f: "tame f"
      "block hljs c s = Inr \<lparr>document = upd c f (document s), highlighted = highlighted s\<rparr> \<or>
       block hljs c s = Inr \<lparr>document = upd c f (document s), highlighted = highlighted s @ [c]\<rparr>"
    using block_effect [OF Cons.prems(1)] by blast
  then obtain s1 where s1: "block hljs c s = Inr s1" "document s1 = upd c f (document s)" by auto
  have "forEach hljs cs s1 = Inr s'" using Cons.prems(2) s1(1) by simp
  then have "at (document s') q = at (document s1) q"
    using Cons.IH [OF Cons.prems(1)] Cons.prems(3) by simp
  also have "\<dots> = at (document s) q"
    using s1(2) at_upd [OF tame_mutator [OF f(1)], of q c] Cons.prems(3) by simp
  finally show ?case .
qed


subsection \<open>The node list\<close>

lemma mem_select_from:
  "(j # r) \<in> set (select_from b k ns) \<longleftrightarrow>
     k \<le> j \<and> j - k < length ns \<and> r \<in> set (select b (ns ! (j - k)))"
proof (induction ns arbitrary: k)
  case Nil
  then show ?case by simp
next
  case (Cons n ns)
  show ?case
  proof (cases "j = k")
    case True
    have "(k # r) \<notin> set (select_from b (Suc k) ns)" using Cons.IH [of "Suc k"] True by simp
    then show ?thesis using True by auto
  next
    case False
    have "(j # r) \<in> set (select_from b k (n # ns)) \<longleftrightarrow> (j # r) \<in> set (select_from b (Suc k) ns)"
      using False by auto
    also have "\<dots> \<longleftrightarrow> Suc k \<le> j \<and> j - Suc k < length ns \<and> r \<in> set (select b (ns ! (j - Suc k)))"
      by (rule Cons.IH)
    also have "\<dots> \<longleftrightarrow> k \<le> j \<and> j - k < length (n # ns) \<and> r \<in> set (select b ((n # ns) ! (j - k)))"
    proof (cases "k < j")
      case True
      then obtain m where m: "j - k = Suc m" "j - Suc k = m" by (cases "j - k") auto
      with True show ?thesis by auto
    next
      case False
      with \<open>j \<noteq> k\<close> show ?thesis by auto
    qed
    finally show ?thesis .
  qed
qed

lemma Nil_notin_select_from: "[] \<notin> set (select_from b k ns)"
  by (induction ns arbitrary: k) auto

lemma mem_select_Nil: "[] \<in> set (select b d) \<longleftrightarrow> b \<and> localName d [] = Some ''code''"
  by (cases d) (auto simp: localName_def Nil_notin_select_from split: option.splits)

lemma mem_select_Cons:
  "(i # r) \<in> set (select b d) \<longleftrightarrow>
     (\<exists>tag cls ns. d = Element tag cls None ns \<and> i < length ns \<and>
        r \<in> set (select (b \<or> tag = ''pre'') (ns ! i)))"
proof (cases d)
  case (Element tag cls rp ns)
  then show ?thesis by (cases rp) (auto simp: mem_select_from)
qed simp_all

lemma mem_select:
  "c \<in> set (select b d) \<longleftrightarrow>
     localName d c = Some ''code'' \<and>
     (b \<or> (\<exists>q. strict_prefix q c \<and> localName d q = Some ''pre'')) \<and>
     (\<forall>q. strict_prefix q c \<longrightarrow> unreplaced d q)"
proof (induction c arbitrary: b d)
  case Nil
  then show ?case by (auto simp: mem_select_Nil)
next
  case (Cons i r)
  show ?case
  proof (cases "\<exists>tag cls ns. d = Element tag cls None ns \<and> i < length ns")
    case False
    then have "(i # r) \<notin> set (select b d)" by (auto simp: mem_select_Cons)
    moreover have "\<not> (localName d (i # r) = Some ''code'' \<and> unreplaced d [])"
      using False by (cases d) (auto simp: localName_def unreplaced_def split: option.splits)
    ultimately show ?thesis by auto
  next
    case True
    then obtain tag cls ns where d: "d = Element tag cls None ns" and i: "i < length ns" by blast
    have ln: "\<And>q. localName d (i # q) = localName (ns ! i) q"
      using d i by (simp add: localName_def)
    have un: "\<And>q. unreplaced d (i # q) = unreplaced (ns ! i) q"
      using d i by (simp add: unreplaced_def)
    have un0: "unreplaced d []" using d by (simp add: unreplaced_def)
    have ln0: "localName d [] = Some tag" using d by (simp add: localName_def)
    have "(i # r) \<in> set (select b d) \<longleftrightarrow> r \<in> set (select (b \<or> tag = ''pre'') (ns ! i))"
      using d i by (simp add: mem_select_from)
    also have "\<dots> \<longleftrightarrow> localName (ns ! i) r = Some ''code'' \<and>
       ((b \<or> tag = ''pre'') \<or> (\<exists>q. strict_prefix q r \<and> localName (ns ! i) q = Some ''pre'')) \<and>
       (\<forall>q. strict_prefix q r \<longrightarrow> unreplaced (ns ! i) q)"
      by (rule Cons.IH)
    also have "\<dots> \<longleftrightarrow> localName d (i # r) = Some ''code'' \<and>
       (b \<or> (\<exists>q. strict_prefix q (i # r) \<and> localName d q = Some ''pre'')) \<and>
       (\<forall>q. strict_prefix q (i # r) \<longrightarrow> unreplaced d q)"
    proof -
      have a: "(\<exists>q. strict_prefix q (i # r) \<and> localName d q = Some ''pre'') \<longleftrightarrow>
               tag = ''pre'' \<or> (\<exists>q. strict_prefix q r \<and> localName (ns ! i) q = Some ''pre'')"
      proof
        assume "\<exists>q. strict_prefix q (i # r) \<and> localName d q = Some ''pre''"
        then obtain q where q: "strict_prefix q (i # r)" "localName d q = Some ''pre''" by blast
        show "tag = ''pre'' \<or> (\<exists>q. strict_prefix q r \<and> localName (ns ! i) q = Some ''pre'')"
        proof (cases q)
          case Nil
          with q(2) ln0 show ?thesis by simp
        next
          case (Cons j q')
          with q(1) have "j = i" "strict_prefix q' r" by auto
          with q(2) Cons ln show ?thesis by auto
        qed
      next
        assume "tag = ''pre'' \<or> (\<exists>q. strict_prefix q r \<and> localName (ns ! i) q = Some ''pre'')"
        then show "\<exists>q. strict_prefix q (i # r) \<and> localName d q = Some ''pre''"
        proof
          assume "tag = ''pre''"
          then have "strict_prefix [] (i # r) \<and> localName d [] = Some ''pre''" using ln0 by simp
          then show ?thesis by blast
        next
          assume "\<exists>q. strict_prefix q r \<and> localName (ns ! i) q = Some ''pre''"
          then obtain q where "strict_prefix q r" "localName (ns ! i) q = Some ''pre''" by blast
          then have "strict_prefix (i # q) (i # r) \<and> localName d (i # q) = Some ''pre''"
            using ln by simp
          then show ?thesis by blast
        qed
      qed
      have b: "(\<forall>q. strict_prefix q (i # r) \<longrightarrow> unreplaced d q) \<longleftrightarrow>
               (\<forall>q. strict_prefix q r \<longrightarrow> unreplaced (ns ! i) q)"
      proof
        assume h: "\<forall>q. strict_prefix q (i # r) \<longrightarrow> unreplaced d q"
        show "\<forall>q. strict_prefix q r \<longrightarrow> unreplaced (ns ! i) q"
        proof (intro allI impI)
          fix q assume "strict_prefix q r"
          then have "strict_prefix (i # q) (i # r)" by simp
          then show "unreplaced (ns ! i) q" using h un by blast
        qed
      next
        assume h: "\<forall>q. strict_prefix q r \<longrightarrow> unreplaced (ns ! i) q"
        show "\<forall>q. strict_prefix q (i # r) \<longrightarrow> unreplaced d q"
        proof (intro allI impI)
          fix q assume q: "strict_prefix q (i # r)"
          show "unreplaced d q"
          proof (cases q)
            case Nil
            then show ?thesis using un0 by simp
          next
            case (Cons j q')
            with q have "j = i" "strict_prefix q' r" by auto
            then show ?thesis using h un Cons by simp
          qed
        qed
      qed
      show ?thesis unfolding a b ln by auto
    qed
    finally show ?thesis .
  qed
qed

lemma pre_ordered_append:
  "pre_ordered (xs @ ys) \<longleftrightarrow>
     pre_ordered xs \<and> pre_ordered ys \<and> (\<forall>x \<in> set xs. \<forall>y \<in> set ys. \<not> prefix y x)"
  by (induction xs) auto

lemma pre_ordered_map_Cons: "pre_ordered (map ((#) i) xs) = pre_ordered xs"
  by (induction xs) auto

lemma select_from_heads:
  "p \<in> set (select_from b k ns) \<Longrightarrow> \<exists>j r. p = j # r \<and> k \<le> j"
  using mem_select_from [of _ _ b k ns] Nil_notin_select_from [of b k ns]
  by (cases p) auto

lemma pre_ordered_select:
  "pre_ordered (select b d)" and "pre_ordered (select_from b k ns)"
proof (induction b d and b k ns rule: select_select_from.induct)
  case (1 in_pre tag cls r ns)
  show ?case
  proof (cases r)
    case None
    have "\<forall>y \<in> set (select_from (in_pre \<or> tag = ''pre'') 0 ns). \<not> prefix y []"
      using Nil_notin_select_from by auto
    then show ?thesis using None 1 by (simp add: pre_ordered_append)
  next
    case (Some t)
    then show ?thesis by simp
  qed
next
  case (5 in_pre i n ns)
  have "\<forall>x \<in> set (map ((#) i) (select in_pre n)).
          \<forall>y \<in> set (select_from in_pre (Suc i) ns). \<not> prefix y x"
  proof (intro ballI)
    fix x y assume x: "x \<in> set (map ((#) i) (select in_pre n))"
      and y: "y \<in> set (select_from in_pre (Suc i) ns)"
    from x obtain r where "x = i # r" by auto
    moreover from y obtain j r' where "y = j # r'" "Suc i \<le> j" using select_from_heads by blast
    ultimately show "\<not> prefix y x" by auto
  qed
  then show ?case using 5 by (simp add: pre_ordered_append pre_ordered_map_Cons)
qed simp_all

lemma pre_ordered_distinct: "pre_ordered cs \<Longrightarrow> distinct cs"
  by (induction cs) auto

lemma querySelectorAll_distinct: "distinct (querySelectorAll d)"
  by (simp add: querySelectorAll_def pre_ordered_select pre_ordered_distinct)

lemma querySelectorAll_parent:
  assumes "c \<in> set (querySelectorAll d)"
  shows "parentElement d c = Some (butlast c)" and "localName d c = Some ''code''" and "c \<noteq> []"
proof -
  from assms have m: "localName d c = Some ''code''"
      "\<exists>q. strict_prefix q c \<and> localName d q = Some ''pre''"
      "\<forall>q. strict_prefix q c \<longrightarrow> unreplaced d q"
    by (auto simp: querySelectorAll_def mem_select)
  from m(2) show ne: "c \<noteq> []" by auto
  then have "strict_prefix (butlast c) c"
    by (metis append_butlast_last_id strict_prefixI')
  then have "unreplaced d (butlast c)" using m(3) by blast
  then show "parentElement d c = Some (butlast c)"
    using ne by (auto simp: parentElement_def unreplaced_def split: option.splits node.splits)
  show "localName d c = Some ''code''" by (rule m(1))
qed

subsection \<open>Invocations, names and attachment\<close>




lemma unreplaced_at: "at d' q = at d q \<Longrightarrow> unreplaced d' q = unreplaced d q"
proof -
  assume a: "at d' q = at d q"
  show ?thesis
  proof (cases "get d q")
    case None
    then have "get d' q = None" using a by (simp add: at_def)
    with None show ?thesis by (simp add: unreplaced_def)
  next
    case (Some n)
    then obtain m where m: "get d' q = Some m" "own m = own n" using a by (auto simp: at_def)
    from own_eq_cases [OF m(2)] show ?thesis
      using Some m(1) by (auto simp: unreplaced_def split: option.splits node.splits)
  qed
qed

lemma same_kind_name:
  "same_kind n m \<Longrightarrow>
     (case m of Element tag cls r ns \<Rightarrow> Some tag | _ \<Rightarrow> None) =
     (case n of Element tag cls r ns \<Rightarrow> Some tag | _ \<Rightarrow> None)"
  by (cases n; cases m) auto

lemma localName_upd: "tame f \<Longrightarrow> localName (upd c f d) q = localName d q"
proof (cases "q = c")
  case True
  assume "tame f"
  then have "\<And>n. same_kind n (f n)" by (simp add: tame_def)
  then show ?thesis using True same_kind_name [of _ "f _"]
    by (cases "get d c") (auto simp: localName_def get_upd_same)
next
  case False
  assume "tame f"
  then show ?thesis using False at_upd [OF tame_mutator] localName_at by blast
qed

lemma unreplaced_upd: "tame f \<Longrightarrow> unreplaced (upd c f d) q \<Longrightarrow> unreplaced d q"
proof (cases "q = c")
  case True
  assume t: "tame f" and u: "unreplaced (upd c f d) q"
  show ?thesis
  proof (cases "get d c")
    case None
    with u True show ?thesis by (simp add: unreplaced_def get_upd_same)
  next
    case (Some n)
    have "same_kind n (f n)" using t by (simp add: tame_def)
    then show ?thesis using u True Some
      by (cases n; cases "f n") (auto simp: unreplaced_def get_upd_same split: option.splits)
  qed
next
  case False
  assume "tame f" "unreplaced (upd c f d) q"
  then show ?thesis using False at_upd [OF tame_mutator] unreplaced_at by blast
qed

lemma forEach_names:
  "local_engine hljs \<Longrightarrow> forEach hljs cs s = Inr s' \<Longrightarrow>
     localName (document s') q = localName (document s) q \<and>
     (unreplaced (document s') q \<longrightarrow> unreplaced (document s) q)"
proof (induction cs arbitrary: s)
  case Nil
  then show ?case by simp
next
  case (Cons c cs)
  obtain f where f: "tame f"
      "block hljs c s = Inr \<lparr>document = upd c f (document s), highlighted = highlighted s\<rparr> \<or>
       block hljs c s = Inr \<lparr>document = upd c f (document s), highlighted = highlighted s @ [c]\<rparr>"
    using block_effect [OF Cons.prems(1)] by blast
  then obtain s1 where s1: "block hljs c s = Inr s1" "document s1 = upd c f (document s)" by auto
  have "forEach hljs cs s1 = Inr s'" using Cons.prems(2) s1(1) by simp
  from Cons.IH [OF Cons.prems(1) this] show ?case
    using s1(2) localName_upd [OF f(1)] unreplaced_upd [OF f(1)] by auto
qed

lemma attached_iff:
  "attached d p \<longleftrightarrow> localName d p \<noteq> None \<and> (\<forall>q. strict_prefix q p \<longrightarrow> unreplaced d q)"
proof (induction p arbitrary: d)
  case Nil
  then show ?case by (cases d) (auto simp: localName_def)
next
  case (Cons i p)
  show ?case
  proof (cases "\<exists>tag cls ns. d = Element tag cls None ns \<and> i < length ns")
    case False
    then have "\<not> attached d (i # p)" by (cases "(d, i # p)" rule: attached.cases) auto
    moreover have "\<not> (localName d (i # p) \<noteq> None \<and> unreplaced d [])"
      using False by (cases d) (auto simp: localName_def unreplaced_def split: option.splits)
    ultimately show ?thesis by auto
  next
    case True
    then obtain tag cls ns where d: "d = Element tag cls None ns" and i: "i < length ns" by blast
    have ln: "localName d (i # p) = localName (ns ! i) p"
      using d i by (simp add: localName_def)
    have un: "\<And>q. unreplaced d (i # q) = unreplaced (ns ! i) q"
      using d i by (simp add: unreplaced_def)
    have un0: "unreplaced d []" using d by (simp add: unreplaced_def)
    have "(\<forall>q. strict_prefix q (i # p) \<longrightarrow> unreplaced d q) \<longleftrightarrow>
          (\<forall>q. strict_prefix q p \<longrightarrow> unreplaced (ns ! i) q)"
    proof
      assume h: "\<forall>q. strict_prefix q (i # p) \<longrightarrow> unreplaced d q"
      show "\<forall>q. strict_prefix q p \<longrightarrow> unreplaced (ns ! i) q"
      proof (intro allI impI)
        fix q assume "strict_prefix q p"
        then have "strict_prefix (i # q) (i # p)" by simp
        then show "unreplaced (ns ! i) q" using h un by blast
      qed
    next
      assume h: "\<forall>q. strict_prefix q p \<longrightarrow> unreplaced (ns ! i) q"
      show "\<forall>q. strict_prefix q (i # p) \<longrightarrow> unreplaced d q"
      proof (intro allI impI)
        fix q assume q: "strict_prefix q (i # p)"
        show "unreplaced d q"
        proof (cases q)
          case Nil
          then show ?thesis using un0 by simp
        next
          case (Cons j q')
          with q have "j = i" "strict_prefix q' p" by auto
          then show ?thesis using h un Cons by simp
        qed
      qed
    qed
    then show ?thesis using Cons.IH [of "ns ! i"] d i ln by simp
  qed
qed

lemma forEach_get:
  "local_engine hljs \<Longrightarrow> forEach hljs cs s = Inr s' \<Longrightarrow> \<forall>c \<in> set cs. \<not> prefix q c \<Longrightarrow>
   get (document s') q = get (document s) q"
proof (induction cs arbitrary: s)
  case Nil
  then show ?case by simp
next
  case (Cons c cs)
  obtain f where f: "tame f"
      "block hljs c s = Inr \<lparr>document = upd c f (document s), highlighted = highlighted s\<rparr> \<or>
       block hljs c s = Inr \<lparr>document = upd c f (document s), highlighted = highlighted s @ [c]\<rparr>"
    using block_effect [OF Cons.prems(1)] by blast
  then obtain s1 where s1: "block hljs c s = Inr s1" "document s1 = upd c f (document s)" by auto
  have "forEach hljs cs s1 = Inr s'" using Cons.prems(2) s1(1) by simp
  then have "get (document s') q = get (document s1) q"
    using Cons.IH [OF Cons.prems(1)] Cons.prems(3) by simp
  also have "\<dots> = get (document s) q"
    using s1(2) get_upd [OF tame_mutator [OF f(1)], of q c] Cons.prems(3) by simp
  finally show ?case .
qed

lemma forEach_frame:
  assumes "local_engine hljs" "forEach hljs cs s = Inr s'"
  shows "(q \<notin> set cs \<longrightarrow> at (document s') q = at (document s) q) \<and>
         ((\<forall>c \<in> set cs. \<not> prefix q c) \<longrightarrow> get (document s') q = get (document s) q) \<and>
         (attached (document s') q \<longrightarrow> attached (document s) q) \<and>
         (attached (document s) q \<and> \<not> attached (document s') q \<longrightarrow>
            (\<exists>c \<in> set cs. strict_prefix c q))"
proof (intro conjI impI)
  assume "q \<notin> set cs"
  then show "at (document s') q = at (document s) q" using forEach_at [OF assms] by simp
next
  assume "\<forall>c \<in> set cs. \<not> prefix q c"
  then show "get (document s') q = get (document s) q" using forEach_get [OF assms] by simp
next
  assume "attached (document s') q"
  then show "attached (document s) q"
    using forEach_names [OF assms] unfolding attached_iff by metis
next
  assume a: "attached (document s) q \<and> \<not> attached (document s') q"
  then have "localName (document s') q \<noteq> None"
    using forEach_names [OF assms, of q] by (simp add: attached_iff)
  with a obtain p where p: "strict_prefix p q" "\<not> unreplaced (document s') p"
    by (auto simp: attached_iff)
  have "unreplaced (document s) p" using a p(1) by (simp add: attached_iff)
  with p(2) have "at (document s') p \<noteq> at (document s) p" using unreplaced_at by blast
  then have "p \<in> set cs" using forEach_at [OF assms, of p] by blast
  with p(1) show "\<exists>c \<in> set cs. strict_prefix c q" by blast
qed

subsection \<open>Class tokens of the page\<close>

lemma gained_refl [simp]: "gained xs xs"
  by (simp add: gained_def)

lemma classList_upd_other:
  "tame f \<Longrightarrow> q \<noteq> c \<Longrightarrow> classList (upd c f d) q = classList d q"
  using at_upd [OF tame_mutator] classList_at by blast

lemma classList_replace_all: "classList (upd c (replace_all t) d) q = classList d q"
proof (cases "q = c")
  case True
  show ?thesis
  proof (cases "get d c")
    case None
    then show ?thesis using True by (simp add: classList_def get_upd_same)
  next
    case (Some n)
    then show ?thesis using True by (cases n) (simp_all add: classList_def get_upd_same)
  qed
next
  case False
  then show ?thesis using classList_upd_other [OF tame_replace_all] by simp
qed

lemma classList_strip: "classList (strip c d) q = classList d q"
  by (simp add: strip_def set_textContent_def classList_replace_all)

lemma localName_strip: "localName (strip c d) q = localName d q"
  using strip_upd [of c d] localName_upd by auto

lemma classList_no_element: "localName d q = None \<Longrightarrow> classList d q = []"
  by (auto simp: localName_def classList_def split: option.splits node.splits)

lemma resolve_gained:
  "\<exists>d'. resolve c pre d = Inr d' \<and> gained (classList d c) (classList d' c) \<and>
        (\<forall>q. q \<noteq> c \<longrightarrow> classList d' q = classList d q)"
proof (cases "langClass d pre")
  case None
  then show ?thesis by (simp add: resolve_None)
next
  case (Some cls)
  obtain a where a: "resolve c pre d =
      Inr (if cls \<in> set (classList d c) then d else upd c (set_class a) d)"
      "token_set a = append_token (classList d c) cls"
    using resolve_Some [OF Some] by blast
  show ?thesis
  proof (cases "cls \<in> set (classList d c)")
    case True
    with a show ?thesis by simp
  next
    case False
    have other: "\<forall>q. q \<noteq> c \<longrightarrow> classList (upd c (set_class a) d) q = classList d q"
      using classList_upd_other [OF tame_set_class] by simp
    have "gained (classList d c) (classList (upd c (set_class a) d) c)"
    proof (cases "localName d c")
      case None
      then have "localName (upd c (set_class a) d) c = None"
        using localName_upd [OF tame_set_class] by simp
      with None show ?thesis by (simp add: classList_no_element)
    next
      case (Some tag)
      then have "classList (upd c (set_class a) d) c = classList d c @ [cls]"
        using a(2) False by (simp add: classList_upd_set_class append_token_def)
      moreover have "prefix ''language-'' cls" using \<open>langClass d pre = Some cls\<close> langClass_valid by blast
      ultimately show ?thesis using False by (auto simp: gained_def)
    qed
    with a(1) False other show ?thesis by simp
  qed
qed

lemma gained_sets:
  assumes "gained old new"
  shows "set old \<subseteq> set new" and "card (set new - set old) \<le> 1"
    and "\<forall>t \<in> set new - set old. prefix ''language-'' t"
proof -
  from assms consider "new = old"
    | cls where "prefix ''language-'' cls" "cls \<notin> set old" "new = old @ [cls]"
    by (auto simp: gained_def)
  then have "set old \<subseteq> set new \<and> card (set new - set old) \<le> 1 \<and>
             (\<forall>t \<in> set new - set old. prefix ''language-'' t)"
  proof cases
    case 1
    then show ?thesis by simp
  next
    case 2
    then have "set new - set old = {cls}" by auto
    then show ?thesis using 2 by auto
  qed
  then show "set old \<subseteq> set new" and "card (set new - set old) \<le> 1"
    and "\<forall>t \<in> set new - set old. prefix ''language-'' t" by auto
qed

lemma normalize_gained:
  "\<exists>d'. resolve c pre (strip c d) = Inr d' \<and> gained (classList d c) (classList d' c) \<and>
        (\<forall>q. q \<noteq> c \<longrightarrow> classList d' q = classList d q)"
  using resolve_gained [of c pre "strip c d"] by (simp add: classList_strip)

lemma block_keeps_tokens:
  assumes "keeps_tokens hljs" "block hljs c s = Inr s1"
  shows "set (classList (document s) q) \<subseteq> set (classList (document s1) q)"
proof (cases "parentElement (document s) c")
  case None
  then have "s1 = s" using assms(2) by (simp add: block_skip)
  then show ?thesis by simp
next
  case (Some pre)
  obtain d' where d': "resolve c pre (strip c (document s)) = Inr d'"
      "gained (classList (document s) c) (classList d' c)"
      "\<forall>q. q \<noteq> c \<longrightarrow> classList d' q = classList (document s) q"
    using normalize_gained by blast
  have "document s1 = hljs c d'" using block_run [OF Some, of hljs] d'(1) assms(2) by auto
  moreover have "set (classList (document s) q) \<subseteq> set (classList d' q)"
    using d'(2,3) gained_sets(1) by (cases "q = c") auto
  moreover have "set (classList d' q) \<subseteq> set (classList (hljs c d') q)"
    using assms(1) by (simp add: keeps_tokens_def)
  ultimately show ?thesis by auto
qed

lemma forEach_keeps_tokens:
  "keeps_tokens hljs \<Longrightarrow> forEach hljs cs s = Inr s' \<Longrightarrow>
   set (classList (document s) q) \<subseteq> set (classList (document s') q)"
proof (induction cs arbitrary: s)
  case Nil
  then show ?case by simp
next
  case (Cons x rest)
  obtain s1 where s1: "block hljs x s = Inr s1" using block_total by blast
  then have "forEach hljs rest s1 = Inr s'" using Cons.prems(2) by simp
  then have "set (classList (document s1) q) \<subseteq> set (classList (document s') q)"
    using Cons.IH [OF Cons.prems(1)] by simp
  then show ?case using block_keeps_tokens [OF Cons.prems(1) s1, of q] by auto
qed

lemma block_classList:
  assumes "\<forall>c d q. classList (hljs c d) q = classList d q" "block hljs c s = Inr s1"
  shows "gained (classList (document s) c) (classList (document s1) c) \<and>
         (\<forall>q. q \<noteq> c \<longrightarrow> classList (document s1) q = classList (document s) q)"
proof (cases "parentElement (document s) c")
  case None
  then have "s1 = s" using assms(2) by (simp add: block_skip)
  then show ?thesis by simp
next
  case (Some pre)
  obtain d' where d': "resolve c pre (strip c (document s)) = Inr d'"
      "gained (classList (document s) c) (classList d' c)"
      "\<forall>q. q \<noteq> c \<longrightarrow> classList d' q = classList (document s) q"
    using normalize_gained by blast
  have "document s1 = hljs c d'" using block_run [OF Some, of hljs] d'(1) assms(2) by auto
  then show ?thesis using d'(2,3) assms(1) by simp
qed

lemma forEach_classList:
  "\<forall>c d q. classList (hljs c d) q = classList d q \<Longrightarrow> forEach hljs cs s = Inr s' \<Longrightarrow>
   distinct cs \<Longrightarrow>
   gained (classList (document s) q) (classList (document s') q) \<and>
   (q \<notin> set cs \<longrightarrow> classList (document s') q = classList (document s) q)"
proof (induction cs arbitrary: s)
  case Nil
  then show ?case by simp
next
  case (Cons x rest)
  obtain s1 where s1: "block hljs x s = Inr s1" using block_total by blast
  then have run: "forEach hljs rest s1 = Inr s'" using Cons.prems(2) by simp
  have ih: "gained (classList (document s1) q) (classList (document s') q)"
      "q \<notin> set rest \<longrightarrow> classList (document s') q = classList (document s1) q"
    using Cons.IH [OF Cons.prems(1) run] Cons.prems(3) by auto
  have b: "gained (classList (document s) x) (classList (document s1) x)"
      "\<forall>q. q \<noteq> x \<longrightarrow> classList (document s1) q = classList (document s) q"
    using block_classList [OF Cons.prems(1) s1] by auto
  show ?case
  proof (cases "q = x")
    case True
    then have "q \<notin> set rest" using Cons.prems(3) by simp
    then show ?thesis using ih(2) b(1) True by simp
  next
    case False
    then show ?thesis using ih b(2) by simp
  qed
qed

subsection \<open>A page that has been processed\<close>

lemma parentElement_upd_self:
  assumes "tame f"
  shows "parentElement (upd c f d) c = parentElement d c"
proof (cases "c = []")
  case True
  then show ?thesis by (simp add: parentElement_def)
next
  case False
  then have "butlast c \<noteq> c" by (metis append_butlast_last_id append_self_conv not_Cons_self2)
  then have "at (upd c f d) (butlast c) = at d (butlast c)"
    using at_upd [OF tame_mutator [OF assms]] by simp
  then show ?thesis by (rule parentElement_at)
qed

lemma butlast_neq: "c \<noteq> [] \<Longrightarrow> butlast c \<noteq> c"
  by (metis append_butlast_last_id append_self_conv not_Cons_self2)

lemma textContent_strip: "textContent (strip code d) q = textContent d q"
proof (cases "querySelector ''span'' d code")
  case False
  then show ?thesis by (simp add: strip_def)
next
  case True
  then obtain n where n: "get d code = Some n" "has_descendant ''span'' n"
    by (auto simp: querySelector_def split: option.splits)
  then obtain tag cls rp ns where el: "n = Element tag cls rp ns"
    using has_descendant_Element by blast
  have t: "textContent d code = descendant_text n" using n(1) el by (simp add: textContent_def)
  have s: "strip code d = upd code (replace_all (descendant_text n)) d"
    using True t by (simp add: strip_def set_textContent_def)
  show ?thesis
  proof (cases "prefix q code")
    case False
    then show ?thesis using s get_upd [of "replace_all (descendant_text n)" q code d]
      by (simp add: textContent_def)
  next
    case True
    then obtain r where r: "code = q @ r" by (auto simp: prefix_def)
    with n(1) obtain m where m: "get d q = Some m" "get m r = Some n"
      by (auto simp: get_append split: option.splits)
    have g: "get (strip code d) q = Some (upd r (replace_all (descendant_text n)) m)"
      using s r m(1) by (simp add: get_upd_prefix)
    have same: "descendant_text (upd r (replace_all (descendant_text n)) m) = descendant_text m"
      using m(2) by (rule descendant_text_upd)
    from m(2) el obtain tag' cls' r' ns' where m_el: "m = Element tag' cls' r' ns'"
      by (cases m; cases r) auto
    obtain c2 r2 n2 where "upd r (replace_all (descendant_text n)) m = Element tag' c2 r2 n2"
      using upd_Element m_el by blast
    then show ?thesis using g m(1) m_el same by (simp add: textContent_def)
  qed
qed

lemma langClass_strip:
  assumes "parentElement d c = Some pre"
  shows "langClass (strip c d) pre = langClass d pre"
proof -
  obtain f where f: "tame f" "strip c d = upd c f d" using strip_upd by blast
  show ?thesis using langClass_upd_code [OF assms tame_mutator [OF f(1)]] f(2) by simp
qed

lemma normalize_resolved:
  assumes "parentElement d c = Some pre" "resolved d c"
  shows "resolve c pre (strip c d) = Inr (strip c d)"
proof -
  have pre: "pre = butlast c" using assms(1) parentElement_Some by blast
  show ?thesis
  proof (cases "langClass (strip c d) pre")
    case None
    then show ?thesis by (rule resolve_None)
  next
    case (Some cls)
    then have "langClass d (butlast c) = Some cls" using langClass_strip [OF assms(1)] pre by simp
    then have "cls \<in> set (classList (strip c d) c)"
      using assms(2) by (simp add: resolved_def classList_strip)
    then show ?thesis using Some by (simp add: resolve_def)
  qed
qed

lemma block_resolves:
  assumes "local_engine hljs" "keeps_tokens hljs"
    "parentElement (document s) c = Some pre" "localName (document s) c = Some tag"
    "block hljs c s = Inr s1" "langClass (document s) pre = Some cls"
  shows "cls \<in> set (classList (document s1) c)"
proof -
  let ?d1 = "strip c (document s)"
  have l1: "langClass ?d1 pre = Some cls" using langClass_strip [OF assms(3)] assms(6) by simp
  have n1: "localName ?d1 c = Some tag" using assms(4) by (simp add: localName_strip)
  obtain d' where d': "resolve c pre ?d1 = Inr d'"
      "classList d' c = append_token (classList ?d1 c) cls"
    using resolve_classList [OF l1 n1] by blast
  have "document s1 = hljs c d'" using block_run [OF assms(3), of hljs] d'(1) assms(5) by auto
  moreover have "cls \<in> set (classList d' c)" using d'(2) by (simp add: append_token_def)
  ultimately show ?thesis using assms(2) unfolding keeps_tokens_def by auto
qed

lemma forEach_resolves:
  "local_engine hljs \<Longrightarrow> keeps_tokens hljs \<Longrightarrow> forEach hljs cs s = Inr s' \<Longrightarrow> c \<in> set cs \<Longrightarrow>
   parentElement (document s) c = Some pre \<Longrightarrow> localName (document s) c = Some tag \<Longrightarrow>
   \<forall>q. prefix q pre \<longrightarrow> q \<notin> set cs \<Longrightarrow> langClass (document s) pre = Some cls \<Longrightarrow>
   cls \<in> set (classList (document s') c)"
proof (induction cs arbitrary: s)
  case Nil
  then show ?case by simp
next
  case (Cons x rest)
  obtain f where f: "tame f"
      "block hljs x s = Inr \<lparr>document = upd x f (document s), highlighted = highlighted s\<rparr> \<or>
       block hljs x s = Inr \<lparr>document = upd x f (document s), highlighted = highlighted s @ [x]\<rparr>"
    using block_effect [OF Cons.prems(1)] by blast
  then obtain s1 where s1: "block hljs x s = Inr s1" "document s1 = upd x f (document s)" by auto
  have run: "forEach hljs rest s1 = Inr s'" using Cons.prems(3) s1(1) by simp
  show ?case
  proof (cases "x = c")
    case True
    have "cls \<in> set (classList (document s1) c)"
      using block_resolves [OF Cons.prems(1,2,5,6) _ Cons.prems(8)] s1(1) True by simp
    then show ?thesis using forEach_keeps_tokens [OF Cons.prems(2) run, of c] by auto
  next
    case False
    then have c: "c \<in> set rest" using Cons.prems(4) by simp
    have chain: "\<And>q. prefix q pre \<Longrightarrow> at (document s1) q = at (document s) q"
    proof -
      fix q assume "prefix q pre"
      then have "q \<noteq> x" using Cons.prems(7) by auto
      then show "at (document s1) q = at (document s) q"
        using s1(2) at_upd [OF tame_mutator [OF f(1)]] by simp
    qed
    have pre: "pre = butlast c" using Cons.prems(5) parentElement_Some by blast
    have "parentElement (document s1) c = parentElement (document s) c"
      by (rule parentElement_at) (use chain pre in simp)
    then have pe: "parentElement (document s1) c = Some pre" using Cons.prems(5) by simp
    have ln: "localName (document s1) c = Some tag"
      using s1(2) localName_upd [OF f(1)] Cons.prems(6) by simp
    have lc: "langClass (document s1) pre = Some cls"
      using langClass_at [of pre "document s1" "document s"] chain Cons.prems(8) by simp
    show ?thesis using Cons.IH [OF Cons.prems(1,2) run c pe ln _ lc] Cons.prems(7) by simp
  qed
qed

lemma forEach_resolved:
  "local_engine hljs \<Longrightarrow> distinct cs \<Longrightarrow>
   \<forall>c \<in> set cs. parentElement (document s) c = Some (butlast c) \<and> resolved (document s) c \<and>
      (\<forall>q. strict_prefix q c \<longrightarrow> q \<notin> set cs) \<Longrightarrow>
   forEach hljs cs s =
     Inr \<lparr>document = fold (\<lambda>c d. hljs c (strip c d)) cs (document s),
          highlighted = highlighted s @ cs\<rparr>"
proof (induction cs arbitrary: s)
  case Nil
  then show ?case by simp
next
  case (Cons x rest)
  let ?s1 = "\<lparr>document = hljs x (strip x (document s)), highlighted = highlighted s @ [x]\<rparr>"
  have px: "parentElement (document s) x = Some (butlast x)" "resolved (document s) x"
    using Cons.prems(3) by auto
  have "resolve x (butlast x) (strip x (document s)) = Inr (strip x (document s))"
    using normalize_resolved [OF px] .
  then have b: "block hljs x s = Inr ?s1" using block_run [OF px(1), of hljs] by auto
  obtain f where f: "tame f"
      "block hljs x s = Inr \<lparr>document = upd x f (document s), highlighted = highlighted s\<rparr> \<or>
       block hljs x s = Inr \<lparr>document = upd x f (document s), highlighted = highlighted s @ [x]\<rparr>"
    using block_effect [OF Cons.prems(1)] by blast
  then have doc: "document ?s1 = upd x f (document s)" using b by auto
  have "\<forall>c \<in> set rest. parentElement (document ?s1) c = Some (butlast c) \<and>
      resolved (document ?s1) c \<and> (\<forall>q. strict_prefix q c \<longrightarrow> q \<notin> set rest)"
  proof
    fix c assume c: "c \<in> set rest"
    then have h: "parentElement (document s) c = Some (butlast c)" "resolved (document s) c"
        "\<forall>q. strict_prefix q c \<longrightarrow> q \<notin> set (x # rest)"
      using Cons.prems(3) by auto
    have cx: "c \<noteq> x" using c Cons.prems(2) by auto
    have cne: "c \<noteq> []" using h(1) parentElement_Some by blast
    have chain: "\<And>q. strict_prefix q c \<Longrightarrow> at (document ?s1) q = at (document s) q"
    proof -
      fix q assume "strict_prefix q c"
      then have "q \<noteq> x" using h(3) by auto
      then show "at (document ?s1) q = at (document s) q"
        unfolding doc using at_upd [OF tame_mutator [OF f(1)]] by simp
    qed
    have sb: "strict_prefix (butlast c) c"
      using cne by (metis append_butlast_last_id strict_prefixI')
    have "parentElement (document ?s1) c = parentElement (document s) c"
      by (rule parentElement_at) (rule chain [OF sb])
    then have pe: "parentElement (document ?s1) c = Some (butlast c)" using h(1) by simp
    have lc: "langClass (document ?s1) (butlast c) = langClass (document s) (butlast c)"
    proof (rule langClass_at)
      fix q assume "prefix q (butlast c)"
      then have "strict_prefix q c" using sb by (meson prefix_order.le_less_trans)
      then show "at (document ?s1) q = at (document s) q" by (rule chain)
    qed
    have cl: "classList (document ?s1) c = classList (document s) c"
      unfolding doc using classList_upd_other [OF f(1) cx] .
    have "resolved (document ?s1) c" using h(2) lc cl by (simp add: resolved_def)
    then show "parentElement (document ?s1) c = Some (butlast c) \<and>
      resolved (document ?s1) c \<and> (\<forall>q. strict_prefix q c \<longrightarrow> q \<notin> set rest)"
      using pe h(3) by simp
  qed
  then have "forEach hljs rest ?s1 =
     Inr \<lparr>document = fold (\<lambda>c d. hljs c (strip c d)) rest (document ?s1),
          highlighted = highlighted ?s1 @ rest\<rparr>"
    using Cons.IH [OF Cons.prems(1)] Cons.prems(2) by simp
  then show ?case using b by simp
qed

lemma second_pass_flat:
  assumes "flat (document s)" "local_engine hljs" "keeps_tokens hljs"
  shows "\<exists>s1 s2. pass (Some hljs) s = Inr s1 \<and> pass (Some hljs) s1 = Inr s2 \<and>
           highlighted s2 = highlighted s1 @ querySelectorAll (document s1) \<and>
           document s2 =
             fold (\<lambda>c d. hljs c (strip c d)) (querySelectorAll (document s1)) (document s1)"
proof -
  let ?L = "querySelectorAll (document s)"
  obtain s1 where s1: "forEach hljs ?L s = Inr s1" using forEach_total by blast
  let ?L1 = "querySelectorAll (document s1)"
  have sub: "\<And>c. c \<in> set ?L1 \<Longrightarrow> c \<in> set ?L"
    using forEach_names [OF assms(2) s1] unfolding querySelectorAll_def mem_select by metis
  have above: "\<And>c q. c \<in> set ?L \<Longrightarrow> strict_prefix q c \<Longrightarrow> q \<notin> set ?L"
    using assms(1) unfolding flat_def by blast
  have "\<forall>c \<in> set ?L1. parentElement (document s1) c = Some (butlast c) \<and>
      resolved (document s1) c \<and> (\<forall>q. strict_prefix q c \<longrightarrow> q \<notin> set ?L1)"
  proof
    fix c assume c1: "c \<in> set ?L1"
    then have c: "c \<in> set ?L" by (rule sub)
    have pe1: "parentElement (document s1) c = Some (butlast c)"
      using querySelectorAll_parent(1) [OF c1] .
    have pe: "parentElement (document s) c = Some (butlast c)"
      and ln: "localName (document s) c = Some ''code''" and cne: "c \<noteq> []"
      using querySelectorAll_parent [OF c] by auto
    have sb: "strict_prefix (butlast c) c"
      using cne by (metis append_butlast_last_id strict_prefixI')
    have chain: "\<forall>q. prefix q (butlast c) \<longrightarrow> q \<notin> set ?L"
    proof (intro allI impI)
      fix q assume "prefix q (butlast c)"
      then have "strict_prefix q c" using sb by (meson prefix_order.le_less_trans)
      then show "q \<notin> set ?L" using above [OF c] by simp
    qed
    have lc: "langClass (document s1) (butlast c) = langClass (document s) (butlast c)"
    proof (rule langClass_at)
      fix q assume "prefix q (butlast c)"
      then have "q \<notin> set ?L" using chain by simp
      then show "at (document s1) q = at (document s) q" using forEach_at [OF assms(2) s1] by simp
    qed
    have "resolved (document s1) c"
      unfolding resolved_def
    proof (intro allI impI)
      fix cls assume "langClass (document s1) (butlast c) = Some cls"
      then have "langClass (document s) (butlast c) = Some cls" using lc by simp
      then show "cls \<in> set (classList (document s1) c)"
        using forEach_resolves [OF assms(2,3) s1 c pe ln chain] by simp
    qed
    moreover have "\<forall>q. strict_prefix q c \<longrightarrow> q \<notin> set ?L1" using above [OF c] sub by blast
    ultimately show "parentElement (document s1) c = Some (butlast c) \<and>
      resolved (document s1) c \<and> (\<forall>q. strict_prefix q c \<longrightarrow> q \<notin> set ?L1)"
      using pe1 by simp
  qed
  then have "forEach hljs ?L1 s1 =
     Inr \<lparr>document = fold (\<lambda>c d. hljs c (strip c d)) ?L1 (document s1),
          highlighted = highlighted s1 @ ?L1\<rparr>"
    using forEach_resolved [OF assms(2) querySelectorAll_distinct] by blast
  then show ?thesis using s1 by (simp add: pass_def)
qed





subsection \<open>The example engines and pages\<close>

lemmas eval_simps = pass_def querySelectorAll_def block_def strip_def resolve_def langClass_def
  langSource_def closest.simps parentElement_def classList_def token_set_def ordered_set_def
  append_token_def is_ws_def classList_add_def add_class_def class_attr_def querySelector_def
  textContent_def set_textContent_def highlightElement_def localName_def no_effect_def
  hljs_like_def

lemma local_no_effect: "local_engine no_effect"
  unfolding local_engine_def no_effect_def
proof (intro allI)
  fix c d
  have "tame (\<lambda>n. n) \<and> d = upd c (\<lambda>n. n) d" by simp
  then show "\<exists>f. tame f \<and> d = upd c f d" by blast
qed

lemma keeps_no_effect: "keeps_tokens no_effect"
  by (simp add: keeps_tokens_def no_effect_def)

lemma tame_render: "tame render"
  unfolding tame_def
proof
  fix n show "same_kind n (render n)" by (cases n) auto
qed

lemma local_hljs_like: "local_engine hljs_like"
  unfolding local_engine_def hljs_like_def using tame_render by blast

lemma classList_render:
  "get d c = Some n \<Longrightarrow>
   set (classList d c) \<subseteq> set (classList (upd c render d) c)"
proof (cases n)
  case (Element tag cls rp ns)
  assume g: "get d c = Some n"
  let ?ts = "append_token (token_set cls) ''hljs''"
  have "valid_token ''hljs''" by (simp add: valid_token_def is_ws_def)
  then have v: "\<forall>t \<in> set ?ts. valid_token t"
    using token_set_valid by (auto simp: append_token_def)
  have d: "distinct ?ts" by (simp add: append_token_def)
  have "classList (upd c render d) c = ?ts"
    using g Element token_set_serialize [OF v d] by (simp add: classList_def get_upd_same)
  moreover have "classList d c = token_set cls" using g Element by (simp add: classList_def)
  ultimately show ?thesis by (auto simp: append_token_def)
qed (simp_all add: classList_def)

lemma keeps_hljs_like: "keeps_tokens hljs_like"
  unfolding keeps_tokens_def hljs_like_def
proof (intro allI)
  fix c d q
  show "set (classList d q) \<subseteq> set (classList (upd c render d) q)"
  proof (cases "q = c")
    case False
    then show ?thesis using classList_upd_other [OF tame_render] by simp
  next
    case True
    show ?thesis
    proof (cases "get d c")
      case None
      then show ?thesis using True by (simp add: classList_def)
    next
      case (Some n)
      then show ?thesis using True classList_render by simp
    qed
  qed
qed

lemma nodes_three_blocks: "querySelectorAll three_blocks = [[0, 0], [1, 0, 0], [2, 0, 0]]"
  by (simp add: three_blocks_def eval_simps)

lemma flat_three_blocks: "flat three_blocks"
  by (simp add: flat_def nodes_three_blocks)

lemma pass_three_blocks:
  "pass (Some no_effect) \<lparr>document = three_blocks, highlighted = []\<rparr> =
   Inr \<lparr>document = three_blocks_done, highlighted = [[0, 0], [1, 0, 0], [2, 0, 0]]\<rparr>"
  by (simp add: three_blocks_def three_blocks_done_def eval_simps)

lemma pass_three_blocks_rendered:
  "pass (Some hljs_like) \<lparr>document = three_blocks, highlighted = []\<rparr> =
   Inr \<lparr>document = three_blocks_rendered, highlighted = [[0, 0], [1, 0, 0], [2, 0, 0]]\<rparr>"
  by (simp add: three_blocks_def three_blocks_rendered_def eval_simps)

lemma pass_nested_blocks:
  "pass (Some no_effect) \<lparr>document = nested_blocks, highlighted = []\<rparr> =
   Inr \<lparr>document = nested_blocks_done, highlighted = [[0, 0], [1, 0]]\<rparr>"
  by (simp add: nested_blocks_def nested_blocks_done_def eval_simps)

section \<open>The claims\<close>

text \<open>
  C1, as the specification has it: a block whose content contains any nested markup
  element gets its content replaced by the flattened text. The script tests for a
  \<^verbatim>\<open>span\<close> descendant only (\<^verbatim>\<open>code.querySelector("span")\<close>), so a block whose only
  nested element is, say, a \<^verbatim>\<open>b\<close> element contains nested markup and keeps it.
\<close>

theorem stripper_ignores_other_markup:
  "markup (Element ''pre'' [] None
             [Element ''code'' [] None [Element ''b'' [] None [Text ''x'']]]) [0] \<and>
   textContent (Element ''pre'' [] None
             [Element ''code'' [] None [Element ''b'' [] None [Text ''x'']]]) [0] = ''x'' \<and>
   content (strip [0] (Element ''pre'' [] None
             [Element ''code'' [] None [Element ''b'' [] None [Text ''x'']]])) [0]
     = [Element ''b'' [] None [Text ''x'']]"
  by (simp add: markup_def content_def strip_def querySelector_def textContent_def)

text \<open>
  C1, amended: a block with a \<^verbatim>\<open>span\<close> element among its descendants gets its children
  replaced by one text node that holds its text content (by no node when the text is
  empty); a block with no \<^verbatim>\<open>span\<close> descendant is left as it is, and so is in
  particular every block with no nested markup at all.
\<close>

theorem stripper_flattens_on_span:
  "(querySelector ''span'' d code \<longrightarrow>
      content (strip code d) code =
        (if textContent d code = [] then [] else [Text (textContent d code)])) \<and>
   (\<not> querySelector ''span'' d code \<longrightarrow> strip code d = d) \<and>
   (\<not> markup d code \<longrightarrow> strip code d = d)"
proof (intro conjI impI)
  assume q: "querySelector ''span'' d code"
  then obtain n where n: "get d code = Some n" "has_descendant ''span'' n"
    by (auto simp: querySelector_def split: option.splits)
  then obtain tag cls rp ns where el: "n = Element tag cls rp ns"
    using has_descendant_Element by blast
  have "get (strip code d) code =
      Some (replace_all (textContent d code) (Element tag cls rp ns))"
    using q n(1) el by (simp add: strip_def set_textContent_def get_upd_same)
  then show "content (strip code d) code =
        (if textContent d code = [] then [] else [Text (textContent d code)])"
    by (simp add: content_def)
next
  assume "\<not> querySelector ''span'' d code"
  then show "strip code d = d" by (simp add: strip_def)
next
  assume "\<not> markup d code"
  then show "strip code d = d" by (rule strip_no_markup)
qed

theorem stripper_flattens_on_span_witness:
  "querySelector ''span'' (Element ''pre'' [] None
      [Element ''code'' [] None [Element ''span'' ''k'' None [Text ''fn''], Text '' f'']]) [0] \<and>
   content (strip [0] (Element ''pre'' [] None
      [Element ''code'' [] None [Element ''span'' ''k'' None [Text ''fn''], Text '' f'']])) [0]
     = [Text ''fn f''] \<and>
   \<not> querySelector ''span'' (Element ''pre'' [] None [Element ''code'' [] None [Text ''x'']]) [0] \<and>
   \<not> markup (Element ''pre'' [] None [Element ''code'' [] None [Text ''x'']]) [0] \<and>
   strip [0] (Element ''pre'' [] None [Element ''code'' [] None [Text ''x'']])
     = Element ''pre'' [] None [Element ''code'' [] None [Text ''x'']]"
  using stripper_flattens_on_span
          [of "Element ''pre'' [] None
                 [Element ''code'' [] None [Element ''span'' ''k'' None [Text ''fn''], Text '' f'']]"
              "[0]"]
        stripper_flattens_on_span
          [of "Element ''pre'' [] None [Element ''code'' [] None [Text ''x'']]" "[0]"]
  by (simp add: querySelector_def textContent_def markup_def)

text \<open>
  C2: when \<^verbatim>\<open>window.hljs\<close> is absent the script returns at once: the page, class
  attributes and contents included, is the page it was given, no call of the engine is
  recorded, and the result is not an error.
\<close>

theorem pass_without_engine:
  "pass None s = Inr s"
  by (simp add: pass_def)

text \<open>
  C3: the class source is the first element that carries the class
  \<^verbatim>\<open>highlighter-rouge\<close> on the upward walk that starts at the container, and the
  container itself when the walk finds none. The token selected is the first one of the
  source's class list that starts with \<^verbatim>\<open>language-\<close>, whatever follows it; the block
  then has it, appended when it was not there. When no token of the source starts with
  \<^verbatim>\<open>language-\<close> the resolver returns the page as it was, and not an error.
\<close>

theorem resolver_source:
  "langSource d pre =
     (case find (\<lambda>a. ''highlighter-rouge'' \<in> set (classList d a)) (inclusive_ancestors d pre) of
        Some wrapper \<Rightarrow> wrapper | None \<Rightarrow> pre) \<and>
   (classList d (langSource d pre) = ys @ t # zs \<and> prefix ''language-'' t \<and>
      (\<forall>y \<in> set ys. \<not> prefix ''language-'' y) \<and> localName d code = Some tag \<longrightarrow>
      (\<exists>d'. resolve code pre d = Inr d' \<and>
            classList d' code = append_token (classList d code) t)) \<and>
   ((\<forall>t \<in> set (classList d (langSource d pre)). \<not> prefix ''language-'' t) \<longrightarrow>
      resolve code pre d = Inr d)"
proof (intro conjI impI)
  show "langSource d pre =
     (case find (\<lambda>a. ''highlighter-rouge'' \<in> set (classList d a)) (inclusive_ancestors d pre) of
        Some wrapper \<Rightarrow> wrapper | None \<Rightarrow> pre)"
    by (simp add: langSource_def closest_find)
next
  assume a: "classList d (langSource d pre) = ys @ t # zs \<and> prefix ''language-'' t \<and>
      (\<forall>y \<in> set ys. \<not> prefix ''language-'' y) \<and> localName d code = Some tag"
  then have "langClass d pre = Some t"
    using find_first [of "classList d (langSource d pre)" ys t zs "prefix ''language-''"]
    by (simp add: langClass_def)
  with a show "\<exists>d'. resolve code pre d = Inr d' \<and>
            classList d' code = append_token (classList d code) t"
    using resolve_classList by blast
next
  assume "\<forall>t \<in> set (classList d (langSource d pre)). \<not> prefix ''language-'' t"
  then have "langClass d pre = None" by (simp add: langClass_def find_None_iff)
  then show "resolve code pre d = Inr d" by (rule resolve_None)
qed

theorem resolver_source_witness:
  "langSource three_blocks [1, 0] = [1] \<and>
   classList three_blocks [1] = [''highlighter-rouge''] @ ''language-js'' # [] \<and>
   (\<exists>d'. resolve [1, 0, 0] [1, 0] three_blocks = Inr d' \<and>
         classList d' [1, 0, 0] = [''language-js'']) \<and>
   langSource three_blocks [0] = [0] \<and>
   classList three_blocks [0] = [] \<and>
   resolve [0, 0] [0] three_blocks = Inr three_blocks"
proof -
  have src: "langSource three_blocks [1, 0] = [1]" "langSource three_blocks [0] = [0]"
    by (simp_all add: three_blocks_def eval_simps)
  have cls: "classList three_blocks [1] = [''highlighter-rouge''] @ ''language-js'' # []"
      "classList three_blocks [0] = []" "classList three_blocks [1, 0, 0] = []"
      "localName three_blocks [1, 0, 0] = Some ''code''"
    by (simp_all add: three_blocks_def eval_simps)
  have "\<exists>d'. resolve [1, 0, 0] [1, 0] three_blocks = Inr d' \<and>
         classList d' [1, 0, 0] = append_token (classList three_blocks [1, 0, 0]) ''language-js''"
    using resolver_source [where d = three_blocks and pre = "[1, 0]" and code = "[1, 0, 0]"
        and ys = "[''highlighter-rouge'']" and t = "''language-js''" and zs = "[]"
        and tag = "''code''"] src(1) cls(1,4)
    by simp
  moreover have "resolve [0, 0] [0] three_blocks = Inr three_blocks"
    using resolver_source [where d = three_blocks and pre = "[0]" and code = "[0, 0]"] src(2) cls(2)
    by simp
  ultimately show ?thesis using src cls by (simp add: append_token_def)
qed

text \<open>
  C4: the stripper changes no text. After it has run on a block, the text content of
  the block is the text content it had before, character for character, and so is the
  text content of every other node of the page, the ancestors of the block included.
\<close>

theorem stripper_preserves_text:
  "textContent (strip code d) q = textContent d q"
  by (rule textContent_strip)



text \<open>
  C6: the pass returns a page, never an error, for every page, whether or not the
  engine is there and whatever the engine does to the page. A block that has no
  container when its turn comes is skipped: the callback returns the state it was given,
  page and record of calls, and the loop goes on with the blocks that follow.
\<close>

theorem pass_never_throws:
  "(\<exists>s'. pass w s = Inr s') \<and>
   (parentElement (document s) code = None \<longrightarrow>
      block hljs code s = Inr s \<and> forEach hljs (code # rest) s = forEach hljs rest s)"
  using pass_total [of w s] block_skip [of s code hljs] by simp

theorem pass_never_throws_witness:
  "parentElement nested_blocks_done [0, 0, 1] = None \<and>
   block no_effect [0, 0, 1] \<lparr>document = nested_blocks_done, highlighted = [[0, 0]]\<rparr> =
     Inr \<lparr>document = nested_blocks_done, highlighted = [[0, 0]]\<rparr> \<and>
   forEach no_effect [[0, 0, 1], [1, 0]]
       \<lparr>document = nested_blocks_done, highlighted = [[0, 0]]\<rparr> =
     Inr \<lparr>document = nested_blocks_done, highlighted = [[0, 0], [1, 0]]\<rparr> \<and>
   pass (Some no_effect) \<lparr>document = nested_blocks, highlighted = []\<rparr> =
     Inr \<lparr>document = nested_blocks_done, highlighted = [[0, 0], [1, 0]]\<rparr> \<and>
   (\<exists>s'. pass (Some hljs_like) \<lparr>document = nested_blocks, highlighted = []\<rparr> = Inr s')"
proof -
  have h: "parentElement nested_blocks_done [0, 0, 1] = None"
    by (simp add: nested_blocks_done_def eval_simps)
  have r: "forEach no_effect [[1, 0]] \<lparr>document = nested_blocks_done, highlighted = [[0, 0]]\<rparr> =
     Inr \<lparr>document = nested_blocks_done, highlighted = [[0, 0], [1, 0]]\<rparr>"
    by (simp add: nested_blocks_done_def eval_simps)
  show ?thesis
    using pass_never_throws [where w = "Some hljs_like" and hljs = no_effect
        and s = "\<lparr>document = nested_blocks_done, highlighted = [[0, 0]]\<rparr>"
        and code = "[0, 0, 1]" and rest = "[[1, 0]]"]
      pass_never_throws [where w = "Some hljs_like" and hljs = no_effect
        and s = "\<lparr>document = nested_blocks, highlighted = []\<rparr>"
        and code = "[0, 0, 1]" and rest = "[]"] h r pass_nested_blocks
    by simp
qed

text \<open>
  C7: for a block with its container, the resolver run a second time returns the page
  of the first run: no token occurs twice in the block's class list, the resolved token
  is in it, the first run changes nothing when the block already had the token, and
  appends it when it had not; the second run changes nothing.
\<close>

theorem resolver_idempotent:
  assumes "parentElement d code = Some pre" "localName d code = Some tag"
  shows "\<exists>d'. resolve code pre d = Inr d' \<and> resolve code pre d' = Inr d' \<and>
           (\<forall>cls. count_list (classList d' code) cls \<le> 1) \<and>
           (\<forall>cls. langClass d pre = Some cls \<longrightarrow>
              cls \<in> set (classList d' code) \<and>
              (cls \<in> set (classList d code) \<longrightarrow> d' = d) \<and>
              (cls \<notin> set (classList d code) \<longrightarrow> classList d' code = classList d code @ [cls]))"
proof (cases "langClass d pre")
  case None
  then have "resolve code pre d = Inr d" by (rule resolve_None)
  then show ?thesis using None count_classList by auto
next
  case (Some cls)
  obtain a where a: "resolve code pre d =
               Inr (if cls \<in> set (classList d code) then d else upd code (set_class a) d)"
             "token_set a = append_token (classList d code) cls"
    using resolve_Some [OF Some] by blast
  let ?d' = "if cls \<in> set (classList d code) then d else upd code (set_class a) d"
  have cl: "classList ?d' code = append_token (classList d code) cls"
    using a(2) assms(2) by (simp add: classList_upd_set_class append_token_def)
  have lc: "langClass ?d' pre = Some cls"
    using Some langClass_upd_code [OF assms(1), of "set_class a"] by simp
  have mem: "cls \<in> set (classList ?d' code)" unfolding cl by (simp add: append_token_def)
  have again: "resolve code pre ?d' = Inr ?d'"
    using lc mem unfolding resolve_def by simp
  have "\<forall>c. count_list (classList ?d' code) c \<le> 1"
    using count_classList by blast
  then show ?thesis using a(1) again Some cl mem
    by (auto simp: append_token_def)
qed

theorem resolver_idempotent_witness:
  "parentElement go_block [0, 0] = Some [0] \<and> localName go_block [0, 0] = Some ''code'' \<and>
   langClass go_block [0] = Some ''language-go'' \<and>
   ''language-go'' \<in> set (classList go_block [0, 0]) \<and>
   resolve [0, 0] [0] go_block = Inr go_block \<and>
   parentElement three_blocks [1, 0, 0] = Some [1, 0] \<and>
   langClass three_blocks [1, 0] = Some ''language-js'' \<and>
   ''language-js'' \<notin> set (classList three_blocks [1, 0, 0]) \<and>
   (\<exists>d'. resolve [1, 0, 0] [1, 0] three_blocks = Inr d' \<and>
         resolve [1, 0, 0] [1, 0] d' = Inr d' \<and>
         classList d' [1, 0, 0] = [''language-js''] \<and>
         count_list (classList d' [1, 0, 0]) ''language-js'' \<le> 1)"
proof -
  have g: "parentElement go_block [0, 0] = Some [0]" "localName go_block [0, 0] = Some ''code''"
      "langClass go_block [0] = Some ''language-go''"
      "''language-go'' \<in> set (classList go_block [0, 0])"
    by (simp_all add: go_block_def eval_simps)
  have t: "parentElement three_blocks [1, 0, 0] = Some [1, 0]"
      "localName three_blocks [1, 0, 0] = Some ''code''"
      "langClass three_blocks [1, 0] = Some ''language-js''"
      "classList three_blocks [1, 0, 0] = []"
    by (simp_all add: three_blocks_def eval_simps)
  have "resolve [0, 0] [0] go_block = Inr go_block"
    using resolver_idempotent [OF g(1,2)] g(3,4) by auto
  moreover have "\<exists>d'. resolve [1, 0, 0] [1, 0] three_blocks = Inr d' \<and>
         resolve [1, 0, 0] [1, 0] d' = Inr d' \<and>
         classList d' [1, 0, 0] = [''language-js''] \<and>
         count_list (classList d' [1, 0, 0]) ''language-js'' \<le> 1"
    using resolver_idempotent [OF t(1,2)] t(3,4) by auto
  ultimately show ?thesis using g t by simp
qed

text \<open>
  C8, as the specification has it: on an already processed page no spans remain to
  strip. The engine is given each block after it has been stripped, and what the engine
  renders into the block is there when the second pass comes. With an engine that
  renders the text of a block as one \<^verbatim>\<open>span\<close> element, every block of the page that the
  first pass returns has a \<^verbatim>\<open>span\<close> descendant, and the stripper of the second pass
  replaces the content of the block again.
\<close>

theorem rendered_spans_are_stripped_again:
  "pass (Some hljs_like) \<lparr>document = three_blocks, highlighted = []\<rparr> =
     Inr \<lparr>document = three_blocks_rendered, highlighted = [[0, 0], [1, 0, 0], [2, 0, 0]]\<rparr> \<and>
   querySelectorAll three_blocks_rendered = [[0, 0], [1, 0, 0], [2, 0, 0]] \<and>
   querySelector ''span'' three_blocks_rendered [0, 0] \<and>
   querySelector ''span'' three_blocks_rendered [1, 0, 0] \<and>
   querySelector ''span'' three_blocks_rendered [2, 0, 0] \<and>
   content three_blocks_rendered [0, 0] =
     [Element ''span'' ''hljs-keyword'' None [Text ''a'']] \<and>
   content (strip [0, 0] three_blocks_rendered) [0, 0] = [Text ''a'']"
  using pass_three_blocks_rendered
  by (simp add: three_blocks_rendered_def content_def eval_simps)

text \<open>
  C8, amended: what the second pass does to a block whose class list already has the
  token the resolver selects is to strip it again, if the engine left a \<^verbatim>\<open>span\<close> in
  it, and to call the engine again. The resolver changes nothing, and the stripper
  leaves the class list and the text content of every node as they are. For a page on
  which no block of the node list lies inside another one, and an engine that changes
  only the element it is called on and removes no class token, both passes return, the
  second pass calls the engine once more for every block of the processed page, each
  block once, in the order of the node list, and the page it returns is the processed
  page with every block stripped and handed to the engine, in that order.
\<close>

theorem second_pass_restrips:
  "(parentElement (document s) code = Some pre \<and> resolved (document s) code \<longrightarrow>
      resolve code pre (strip code (document s)) = Inr (strip code (document s)) \<and>
      classList (strip code (document s)) q = classList (document s) q \<and>
      textContent (strip code (document s)) q = textContent (document s) q \<and>
      block hljs code s =
        Inr \<lparr>document = hljs code (strip code (document s)),
             highlighted = highlighted s @ [code]\<rparr>) \<and>
   (flat (document s) \<and> local_engine hljs \<and> keeps_tokens hljs \<longrightarrow>
      (\<exists>s1 s2. pass (Some hljs) s = Inr s1 \<and> pass (Some hljs) s1 = Inr s2 \<and>
         highlighted s2 = highlighted s1 @ querySelectorAll (document s1) \<and>
         distinct (querySelectorAll (document s1)) \<and>
         document s2 =
           fold (\<lambda>c d. hljs c (strip c d)) (querySelectorAll (document s1)) (document s1)))"
proof (intro conjI impI)
  assume a: "parentElement (document s) code = Some pre \<and> resolved (document s) code"
  then have r: "resolve code pre (strip code (document s)) = Inr (strip code (document s))"
    using normalize_resolved by blast
  then show "resolve code pre (strip code (document s)) = Inr (strip code (document s))" .
  show "classList (strip code (document s)) q = classList (document s) q"
    by (rule classList_strip)
  show "textContent (strip code (document s)) q = textContent (document s) q"
    by (rule textContent_strip)
  show "block hljs code s =
        Inr \<lparr>document = hljs code (strip code (document s)),
             highlighted = highlighted s @ [code]\<rparr>"
    using a r block_run [of s code pre hljs] by auto
next
  assume "flat (document s) \<and> local_engine hljs \<and> keeps_tokens hljs"
  then show "\<exists>s1 s2. pass (Some hljs) s = Inr s1 \<and> pass (Some hljs) s1 = Inr s2 \<and>
         highlighted s2 = highlighted s1 @ querySelectorAll (document s1) \<and>
         distinct (querySelectorAll (document s1)) \<and>
         document s2 =
           fold (\<lambda>c d. hljs c (strip c d)) (querySelectorAll (document s1)) (document s1)"
    using second_pass_flat [of s hljs] querySelectorAll_distinct by blast
qed

theorem second_pass_restrips_witness:
  "flat three_blocks \<and> local_engine hljs_like \<and> keeps_tokens hljs_like \<and>
   pass (Some hljs_like) \<lparr>document = three_blocks, highlighted = []\<rparr> =
     Inr \<lparr>document = three_blocks_rendered, highlighted = [[0, 0], [1, 0, 0], [2, 0, 0]]\<rparr> \<and>
   (\<exists>s2. pass (Some hljs_like)
            \<lparr>document = three_blocks_rendered, highlighted = [[0, 0], [1, 0, 0], [2, 0, 0]]\<rparr> =
          Inr s2 \<and>
      highlighted s2 = [[0, 0], [1, 0, 0], [2, 0, 0], [0, 0], [1, 0, 0], [2, 0, 0]] \<and>
      document s2 = three_blocks_rendered) \<and>
   parentElement three_blocks_rendered [1, 0, 0] = Some [1, 0] \<and>
   resolved three_blocks_rendered [1, 0, 0] \<and>
   strip [1, 0, 0] three_blocks_rendered \<noteq> three_blocks_rendered \<and>
   resolve [1, 0, 0] [1, 0] (strip [1, 0, 0] three_blocks_rendered) =
     Inr (strip [1, 0, 0] three_blocks_rendered) \<and>
   classList (strip [1, 0, 0] three_blocks_rendered) [1, 0, 0] = [''language-js'', ''hljs''] \<and>
   textContent (strip [1, 0, 0] three_blocks_rendered) [1, 0, 0] = ''let x'' \<and>
   block hljs_like [1, 0, 0] \<lparr>document = three_blocks_rendered, highlighted = []\<rparr> =
     Inr \<lparr>document = hljs_like [1, 0, 0] (strip [1, 0, 0] three_blocks_rendered),
          highlighted = [[1, 0, 0]]\<rparr>"
proof -
  let ?s = "\<lparr>document = three_blocks, highlighted = []\<rparr>"
  let ?r = "\<lparr>document = three_blocks_rendered, highlighted = []\<rparr>"
  have h: "parentElement three_blocks_rendered [1, 0, 0] = Some [1, 0]"
      "resolved three_blocks_rendered [1, 0, 0]"
      "strip [1, 0, 0] three_blocks_rendered \<noteq> three_blocks_rendered"
      "classList three_blocks_rendered [1, 0, 0] = [''language-js'', ''hljs'']"
      "textContent three_blocks_rendered [1, 0, 0] = ''let x''"
    by (simp_all add: three_blocks_rendered_def resolved_def eval_simps)
  have l: "querySelectorAll three_blocks_rendered = [[0, 0], [1, 0, 0], [2, 0, 0]]"
    by (simp add: three_blocks_rendered_def eval_simps)
  have f: "fold (\<lambda>c d. hljs_like c (strip c d)) [[0, 0], [1, 0, 0], [2, 0, 0]]
      three_blocks_rendered = three_blocks_rendered"
    by (simp add: three_blocks_rendered_def eval_simps)
  have a: "\<exists>s2. pass (Some hljs_like)
            \<lparr>document = three_blocks_rendered, highlighted = [[0, 0], [1, 0, 0], [2, 0, 0]]\<rparr> =
          Inr s2 \<and>
      highlighted s2 = [[0, 0], [1, 0, 0], [2, 0, 0], [0, 0], [1, 0, 0], [2, 0, 0]] \<and>
      document s2 = three_blocks_rendered"
    using second_pass_restrips [where s = ?s and hljs = hljs_like and code = "[1, 0, 0]"
        and pre = "[1, 0]" and q = "[1, 0, 0]"]
      flat_three_blocks local_hljs_like keeps_hljs_like pass_three_blocks_rendered l f
    by auto
  have b: "resolve [1, 0, 0] [1, 0] (strip [1, 0, 0] three_blocks_rendered) =
     Inr (strip [1, 0, 0] three_blocks_rendered) \<and>
   classList (strip [1, 0, 0] three_blocks_rendered) [1, 0, 0] = [''language-js'', ''hljs''] \<and>
   textContent (strip [1, 0, 0] three_blocks_rendered) [1, 0, 0] = ''let x'' \<and>
   block hljs_like [1, 0, 0] ?r =
     Inr \<lparr>document = hljs_like [1, 0, 0] (strip [1, 0, 0] three_blocks_rendered),
          highlighted = [[1, 0, 0]]\<rparr>"
    using second_pass_restrips [where s = ?r and hljs = hljs_like and code = "[1, 0, 0]"
        and pre = "[1, 0]" and q = "[1, 0, 0]"] h
    by simp
  show ?thesis
    using a b h(1,2,3) flat_three_blocks local_hljs_like keeps_hljs_like
      pass_three_blocks_rendered
    by simp
qed

text \<open>
  C9, as the specification has it: no element is created or removed by the pass. The
  \<^verbatim>\<open>span\<close> element of the third block of the example page is in the document before
  the pass and is not in it after, with an engine that leaves the page alone: flattening
  a block removes the elements nested in it.
\<close>

theorem pass_removes_nested_elements:
  "attached three_blocks [2, 0, 0, 0] \<and>
   localName three_blocks [2, 0, 0, 0] = Some ''span'' \<and>
   pass (Some no_effect) \<lparr>document = three_blocks, highlighted = []\<rparr> =
     Inr \<lparr>document = three_blocks_done, highlighted = [[0, 0], [1, 0, 0], [2, 0, 0]]\<rparr> \<and>
   \<not> attached three_blocks_done [2, 0, 0, 0] \<and>
   content three_blocks_done [2, 0, 0] = [Text ''func f'']"
  using pass_three_blocks
  by (simp add: three_blocks_def three_blocks_done_def localName_def content_def)

text \<open>
  C9, amended: the pass changes nodes of the node list only, and of them only the class
  attribute and the child list. This holds when the engine is absent, when it leaves the
  page alone, and for every engine that changes only the element it is called on. A node
  that is not a block of the list keeps its name, its class attribute and its own child
  list; a node with no block of the list at or below it keeps everything below it as
  well. No element is created: an element that is in the document after the pass was in
  it before. An element that the pass removes from the document was nested in a block of
  the list.
\<close>

theorem pass_frame:
  "(\<forall>hljs. w = Some hljs \<longrightarrow> local_engine hljs) \<Longrightarrow>
   \<exists>s'. pass w s = Inr s' \<and>
     (q \<notin> set (querySelectorAll (document s)) \<longrightarrow> at (document s') q = at (document s) q) \<and>
     ((\<forall>c \<in> set (querySelectorAll (document s)). \<not> prefix q c) \<longrightarrow>
        get (document s') q = get (document s) q) \<and>
     (attached (document s') q \<longrightarrow> attached (document s) q) \<and>
     (attached (document s) q \<and> \<not> attached (document s') q \<longrightarrow>
        (\<exists>c \<in> set (querySelectorAll (document s)). strict_prefix c q))"
proof (cases w)
  case None
  then have "pass w s = Inr s" by (simp add: pass_def)
  then show ?thesis by auto
next
  case (Some hljs)
  assume "\<forall>hljs. w = Some hljs \<longrightarrow> local_engine hljs"
  then have loc: "local_engine hljs" using Some by simp
  obtain s' where run: "forEach hljs (querySelectorAll (document s)) s = Inr s'"
    using forEach_total by blast
  then have "pass w s = Inr s'" using Some by (simp add: pass_def)
  then show ?thesis using forEach_frame [OF loc run, of q] by blast
qed

theorem pass_frame_witness:
  "local_engine no_effect \<and> local_engine hljs_like \<and>
   querySelectorAll three_blocks = [[0, 0], [1, 0, 0], [2, 0, 0]] \<and>
   [1] \<notin> set (querySelectorAll three_blocks) \<and>
   \<not> prefix [0, 0, 0] ([0, 0] :: path) \<and> \<not> prefix [0, 0, 0] ([1, 0, 0] :: path) \<and>
   \<not> prefix [0, 0, 0] ([2, 0, 0] :: path) \<and>
   attached three_blocks [2, 0, 0, 0] \<and>
   (\<exists>s'. pass (Some no_effect) \<lparr>document = three_blocks, highlighted = []\<rparr> = Inr s' \<and>
      at (document s') [1] = at three_blocks [1] \<and>
      get (document s') [0, 0, 0] = get three_blocks [0, 0, 0] \<and>
      attached (document s') [1] \<and> attached three_blocks [1] \<and>
      \<not> attached (document s') [2, 0, 0, 0]) \<and>
   (\<exists>s'. pass (Some hljs_like) \<lparr>document = three_blocks, highlighted = []\<rparr> = Inr s' \<and>
      at (document s') [1] = at three_blocks [1] \<and>
      get (document s') [0, 0, 0] = get three_blocks [0, 0, 0] \<and>
      attached (document s') [1] \<and> attached three_blocks [1] \<and>
      \<not> attached (document s') [2, 0, 0, 0]) \<and>
   (\<exists>c \<in> set (querySelectorAll three_blocks). strict_prefix c [2, 0, 0, 0])"
proof -
  let ?s = "\<lparr>document = three_blocks, highlighted = []\<rparr>"
  have l: "querySelectorAll three_blocks = [[0, 0], [1, 0, 0], [2, 0, 0]]"
    by (rule nodes_three_blocks)
  have a: "attached three_blocks [2, 0, 0, 0]" "\<not> attached three_blocks_done [2, 0, 0, 0]"
      "attached three_blocks_done [1]" "\<not> attached three_blocks_rendered [2, 0, 0, 0]"
      "attached three_blocks_rendered [1]"
    by (simp_all add: three_blocks_def three_blocks_done_def three_blocks_rendered_def)
  have ne: "\<forall>hljs. Some no_effect = Some hljs \<longrightarrow> local_engine hljs"
    using local_no_effect by simp
  have hl: "\<forall>hljs. Some hljs_like = Some hljs \<longrightarrow> local_engine hljs"
    using local_hljs_like by simp
  have n: "\<exists>s'. pass (Some no_effect) ?s = Inr s' \<and>
      at (document s') [1] = at three_blocks [1] \<and>
      get (document s') [0, 0, 0] = get three_blocks [0, 0, 0] \<and>
      attached (document s') [1] \<and> attached three_blocks [1] \<and>
      \<not> attached (document s') [2, 0, 0, 0]"
    using pass_frame [where w = "Some no_effect" and s = ?s and q = "[1]", OF ne]
      pass_frame [where w = "Some no_effect" and s = ?s and q = "[0, 0, 0]", OF ne]
      pass_three_blocks l a
    by simp
  have h: "\<exists>s'. pass (Some hljs_like) ?s = Inr s' \<and>
      at (document s') [1] = at three_blocks [1] \<and>
      get (document s') [0, 0, 0] = get three_blocks [0, 0, 0] \<and>
      attached (document s') [1] \<and> attached three_blocks [1] \<and>
      \<not> attached (document s') [2, 0, 0, 0]"
    using pass_frame [where w = "Some hljs_like" and s = ?s and q = "[1]", OF hl]
      pass_frame [where w = "Some hljs_like" and s = ?s and q = "[0, 0, 0]", OF hl]
      pass_three_blocks_rendered l a
    by simp
  have p: "\<exists>c \<in> set (querySelectorAll three_blocks). strict_prefix c [2, 0, 0, 0]"
    using pass_frame [where w = "Some no_effect" and s = ?s and q = "[2, 0, 0, 0]", OF ne]
      pass_three_blocks a
    by auto
  show ?thesis using n h p l a(1) local_no_effect local_hljs_like by simp
qed

text \<open>
  C10, as the specification has it: after the pass a block has gained at most one
  token, a \<^verbatim>\<open>language-\<close> token. The pass hands every block to the engine, and the claim
  does not leave the engine out. With an engine that marks the block it has rendered
  with the token \<^verbatim>\<open>hljs\<close>, the second block of the example page has no class token
  before the pass and two after it, and \<^verbatim>\<open>hljs\<close> is not a \<^verbatim>\<open>language-\<close> token.
\<close>

theorem engine_adds_other_tokens:
  "pass (Some hljs_like) \<lparr>document = three_blocks, highlighted = []\<rparr> =
     Inr \<lparr>document = three_blocks_rendered, highlighted = [[0, 0], [1, 0, 0], [2, 0, 0]]\<rparr> \<and>
   classList three_blocks [1, 0, 0] = [] \<and>
   classList three_blocks_rendered [1, 0, 0] = [''language-js'', ''hljs''] \<and>
   card (set (classList three_blocks_rendered [1, 0, 0]) - set (classList three_blocks [1, 0, 0]))
     = 2 \<and>
   \<not> prefix ''language-'' ''hljs''"
  using pass_three_blocks_rendered
  by (simp add: three_blocks_def three_blocks_rendered_def eval_simps)

text \<open>
  C10, amended: the steps of the pass that come before the call of the engine never
  remove a class token. For a block with a container, the stripper and the resolver
  return a page on which the class list of every node contains every token it had, has
  at most one token more, and a token it has more starts with \<^verbatim>\<open>language-\<close> and is on
  the block itself. For the whole pass: when the engine, if there is one, removes no
  class token, the class list of every node after the pass contains every token of the
  class list before it; when the engine, if there is one, leaves every class list as it
  is, the class list of every node has at most one token more after the pass, and a
  token it has more starts with \<^verbatim>\<open>language-\<close>.
\<close>

theorem normalizer_only_adds_language_class:
  "(\<exists>d'. resolve code pre (strip code d) = Inr d' \<and>
       set (classList d q) \<subseteq> set (classList d' q) \<and>
       card (set (classList d' q) - set (classList d q)) \<le> 1 \<and>
       (\<forall>t \<in> set (classList d' q) - set (classList d q).
          prefix ''language-'' t \<and> q = code)) \<and>
   ((\<forall>hljs. w = Some hljs \<longrightarrow> keeps_tokens hljs) \<longrightarrow>
      (\<exists>s'. pass w s = Inr s' \<and>
         set (classList (document s) q) \<subseteq> set (classList (document s') q))) \<and>
   ((\<forall>hljs. w = Some hljs \<longrightarrow> (\<forall>c d p. classList (hljs c d) p = classList d p)) \<longrightarrow>
      (\<exists>s'. pass w s = Inr s' \<and>
         set (classList (document s) q) \<subseteq> set (classList (document s') q) \<and>
         card (set (classList (document s') q) - set (classList (document s) q)) \<le> 1 \<and>
         (\<forall>t \<in> set (classList (document s') q) - set (classList (document s) q).
            prefix ''language-'' t)))"
proof (intro conjI impI)
  obtain d' where d': "resolve code pre (strip code d) = Inr d'"
      "gained (classList d code) (classList d' code)"
      "\<forall>p. p \<noteq> code \<longrightarrow> classList d' p = classList d p"
    using normalize_gained [of code pre d] by blast
  have "set (classList d q) \<subseteq> set (classList d' q) \<and>
       card (set (classList d' q) - set (classList d q)) \<le> 1 \<and>
       (\<forall>t \<in> set (classList d' q) - set (classList d q).
          prefix ''language-'' t \<and> q = code)"
  proof (cases "q = code")
    case True
    then show ?thesis using gained_sets [OF d'(2)] by simp
  next
    case False
    then show ?thesis using d'(3) by simp
  qed
  then show "\<exists>d'. resolve code pre (strip code d) = Inr d' \<and>
       set (classList d q) \<subseteq> set (classList d' q) \<and>
       card (set (classList d' q) - set (classList d q)) \<le> 1 \<and>
       (\<forall>t \<in> set (classList d' q) - set (classList d q).
          prefix ''language-'' t \<and> q = code)"
    using d'(1) by blast
next
  assume k: "\<forall>hljs. w = Some hljs \<longrightarrow> keeps_tokens hljs"
  show "\<exists>s'. pass w s = Inr s' \<and>
         set (classList (document s) q) \<subseteq> set (classList (document s') q)"
  proof (cases w)
    case None
    then show ?thesis by (simp add: pass_def)
  next
    case (Some hljs)
    obtain s' where run: "forEach hljs (querySelectorAll (document s)) s = Inr s'"
      using forEach_total by blast
    have "keeps_tokens hljs" using k Some by simp
    then have "set (classList (document s) q) \<subseteq> set (classList (document s') q)"
      using forEach_keeps_tokens run by blast
    then show ?thesis using run Some by (simp add: pass_def)
  qed
next
  assume k: "\<forall>hljs. w = Some hljs \<longrightarrow> (\<forall>c d p. classList (hljs c d) p = classList d p)"
  show "\<exists>s'. pass w s = Inr s' \<and>
         set (classList (document s) q) \<subseteq> set (classList (document s') q) \<and>
         card (set (classList (document s') q) - set (classList (document s) q)) \<le> 1 \<and>
         (\<forall>t \<in> set (classList (document s') q) - set (classList (document s) q).
            prefix ''language-'' t)"
  proof (cases w)
    case None
    then show ?thesis by (simp add: pass_def)
  next
    case (Some hljs)
    obtain s' where run: "forEach hljs (querySelectorAll (document s)) s = Inr s'"
      using forEach_total by blast
    have "\<forall>c d p. classList (hljs c d) p = classList d p" using k Some by simp
    then have "gained (classList (document s) q) (classList (document s') q)"
      using forEach_classList [OF _ run querySelectorAll_distinct] by blast
    then have "set (classList (document s) q) \<subseteq> set (classList (document s') q) \<and>
         card (set (classList (document s') q) - set (classList (document s) q)) \<le> 1 \<and>
         (\<forall>t \<in> set (classList (document s') q) - set (classList (document s) q).
            prefix ''language-'' t)"
      using gained_sets by blast
    then show ?thesis using run Some by (simp add: pass_def)
  qed
qed

theorem normalizer_only_adds_language_class_witness:
  "keeps_tokens hljs_like \<and>
   (\<forall>c d p. classList (no_effect c d) p = classList d p) \<and>
   classList three_blocks [1, 0, 0] = [] \<and>
   (\<exists>d'. resolve [1, 0, 0] [1, 0] (strip [1, 0, 0] three_blocks) = Inr d' \<and>
      classList d' [1, 0, 0] = [''language-js''] \<and>
      card (set (classList d' [1, 0, 0]) - set (classList three_blocks [1, 0, 0])) \<le> 1) \<and>
   (\<exists>s'. pass (Some hljs_like) \<lparr>document = three_blocks, highlighted = []\<rparr> = Inr s' \<and>
      classList (document s') [1, 0, 0] = [''language-js'', ''hljs''] \<and>
      set (classList three_blocks [1, 0, 0]) \<subseteq> set (classList (document s') [1, 0, 0])) \<and>
   (\<exists>s'. pass (Some no_effect) \<lparr>document = three_blocks, highlighted = []\<rparr> = Inr s' \<and>
      classList (document s') [1, 0, 0] = [''language-js''] \<and>
      ''language-js'' \<in>
        set (classList (document s') [1, 0, 0]) - set (classList three_blocks [1, 0, 0]) \<and>
      card (set (classList (document s') [1, 0, 0]) - set (classList three_blocks [1, 0, 0]))
        \<le> 1 \<and>
      prefix ''language-'' ''language-js'')"
proof -
  let ?s = "\<lparr>document = three_blocks, highlighted = []\<rparr>"
  have c: "classList three_blocks [1, 0, 0] = []"
      "classList three_blocks_done [1, 0, 0] = [''language-js'']"
      "classList three_blocks_rendered [1, 0, 0] = [''language-js'', ''hljs'']"
    by (simp_all add: three_blocks_def three_blocks_done_def three_blocks_rendered_def
        eval_simps)
  have r: "classList (upd [1, 0, 0] (set_class ''language-js'') three_blocks) [1, 0, 0] =
      [''language-js'']"
      "resolve [1, 0, 0] [1, 0] (strip [1, 0, 0] three_blocks) =
       Inr (upd [1, 0, 0] (set_class ''language-js'') three_blocks)"
    by (simp_all add: three_blocks_def eval_simps)
  have n: "\<forall>c d p. classList (no_effect c d) p = classList d p" by (simp add: no_effect_def)
  have a: "\<exists>d'. resolve [1, 0, 0] [1, 0] (strip [1, 0, 0] three_blocks) = Inr d' \<and>
      classList d' [1, 0, 0] = [''language-js''] \<and>
      card (set (classList d' [1, 0, 0]) - set (classList three_blocks [1, 0, 0])) \<le> 1"
    using normalizer_only_adds_language_class [where code = "[1, 0, 0]" and pre = "[1, 0]"
        and d = three_blocks and q = "[1, 0, 0]" and w = None and s = ?s] r
    by auto
  have b: "\<exists>s'. pass (Some hljs_like) ?s = Inr s' \<and>
      classList (document s') [1, 0, 0] = [''language-js'', ''hljs''] \<and>
      set (classList three_blocks [1, 0, 0]) \<subseteq> set (classList (document s') [1, 0, 0])"
    using normalizer_only_adds_language_class [where code = "[1, 0, 0]" and pre = "[1, 0]"
        and d = three_blocks and q = "[1, 0, 0]" and w = "Some hljs_like" and s = ?s]
      keeps_hljs_like pass_three_blocks_rendered c
    by auto
  have d: "\<exists>s'. pass (Some no_effect) ?s = Inr s' \<and>
      classList (document s') [1, 0, 0] = [''language-js''] \<and>
      ''language-js'' \<in>
        set (classList (document s') [1, 0, 0]) - set (classList three_blocks [1, 0, 0]) \<and>
      card (set (classList (document s') [1, 0, 0]) - set (classList three_blocks [1, 0, 0]))
        \<le> 1 \<and>
      prefix ''language-'' ''language-js''"
    using normalizer_only_adds_language_class [where code = "[1, 0, 0]" and pre = "[1, 0]"
        and d = three_blocks and q = "[1, 0, 0]" and w = "Some no_effect" and s = ?s]
      n pass_three_blocks c
    by auto
  show ?thesis using a b d c(1) n keeps_hljs_like by simp
qed

end
